theory Spec2Isabelle
  imports Main
begin

section \<open>The TeX parser stack of \<open>mathjax3-ts/input/tex/Stack.ts\<close>\<close>

text \<open>
  The class \<open>Stack\<close> keeps an array of stack items, a pointer to the current
  environment record and a pointer to the global record. Items and environment records
  are JavaScript objects: they are shared by reference, and several properties are about
  which object a pointer designates. The model therefore keeps an explicit store: items
  and records live in a heap and are named by addresses.
\<close>

subsection \<open>Values and environment records\<close>

type_synonym addr = nat

text \<open>Tree nodes are opaque to the stack: only their identity is used.\<close>

type_synonym MmlNode = nat

text \<open>The values an environment record holds (\<open>VUndefined\<close> is what reading an absent
  property gives).\<close>

datatype val = VUndefined | VBool bool | VNum int | VStr string

text \<open>
  An \<open>EnvList\<close> is a plain object used as a table from property names to values. It is
  modelled by the list of its own enumerable properties in the order of their creation,
  which is the order a \<open>for ... in\<close> loop visits them in (for names that are not array
  indices). The theorems below do not depend on that order: they compare records as maps.
\<close>

type_synonym EnvList = "(string \<times> val) list"

text \<open>\<open>e[id]\<close>\<close>

definition env_get :: "EnvList \<Rightarrow> string \<Rightarrow> val" where
  "env_get e k = (case map_of e k of Some v \<Rightarrow> v | None \<Rightarrow> VUndefined)"

text \<open>\<open>e[id] = v\<close>: an existing property keeps its place, a new one is added last.\<close>

fun env_set :: "EnvList \<Rightarrow> string \<Rightarrow> val \<Rightarrow> EnvList" where
  "env_set [] k v = [(k, v)]"
| "env_set ((k', v') # e) k v =
     (if k' = k then (k, v) # e else (k', v') # env_set e k v)"

subsection \<open>Stack items, the heap and the stack object\<close>

text \<open>
  The fields of a stack item that \<open>Stack.ts\<close> reads or writes: \<open>isOpen\<close>, \<open>env\<close>
  (absent when the property is unset), \<open>global\<close>, and the item's accumulated child
  nodes, which \<open>Prev\<close> reaches through the item's own \<open>Last\<close> and \<open>Pop\<close>. As
  \<open>Stack.ts\<close> uses them, \<open>env\<close> and \<open>global\<close> are plain properties of the item
  object: an assignment sets them and \<open>delete item.env\<close> unsets \<open>env\<close>. The \<open>kind\<close> is
  of use to the item variants only.
\<close>

record StackItem =
  kind :: string
  isOpen :: bool
  item_env :: "addr option"
  item_global :: "addr option"
  nodes :: "MmlNode list"

text \<open>
  The heap: the items and the environment records by address, and the next unused
  address of each kind (an object creation takes it).
\<close>

record heap =
  items :: "addr \<Rightarrow> StackItem"
  envs :: "addr \<Rightarrow> EnvList"
  next_item :: addr
  next_env :: addr

text \<open>
  The \<open>Stack\<close> object: \<open>global\<close>, the array \<open>stack\<close> (its last element is the
  top of the stack, as \<open>Array.push\<close> and \<open>Array.pop\<close> have it) and the private
  \<open>_env\<close> behind the accessors \<open>env\<close>.
\<close>

record Stack =
  global :: addr
  stack :: "addr list"
  env :: "addr option"

type_synonym state = "Stack \<times> heap"

text \<open>
  \<open>Stack.ts\<close> has no \<open>throw\<close> statement. What it can raise is the runtime's
  \<open>TypeError\<close> on reading a property of \<open>undefined\<close> or \<open>null\<close>; the parser's own
  structured error, \<open>TexError\<close>, is raised by the collaborators only (item variants
  and the factory).
\<close>

datatype error = TypeError | TexError string

text \<open>An argument of \<open>Push\<close>: a stack item, a raw tree node, or a null/absent value.\<close>

datatype arg = Null | Item addr | Node MmlNode

text \<open>
  What \<open>checkItem\<close> returns, as \<open>Push\<close> tells the results apart: an array
  (\<open>top instanceof Array\<close>), an item (\<open>top instanceof BaseItem\<close>), and any other value
  by its truthiness.
\<close>

datatype CheckType = Flag bool | Replace addr | ReplaceList "arg list"

text \<open>
  The item variants are not part of \<open>Stack.ts\<close>: \<open>checkItem\<close> is a parameter. It is
  the method of the top item (first address) applied to the candidate (second address);
  it may read and change the heap and it may throw.
\<close>

type_synonym checkItem = "heap \<Rightarrow> addr \<Rightarrow> addr \<Rightarrow> error + CheckType \<times> heap"

text \<open>
  The item factory is a parameter too: \<open>create(kind, arg)\<close> returns the address of an
  item and the heap it leaves, or throws. The constructor passes it the global record,
  \<open>Push\<close> a tree node.
\<close>

datatype create_arg = GlobalArg addr | NodeArg MmlNode

type_synonym factory = "string \<Rightarrow> create_arg \<Rightarrow> heap \<Rightarrow> error + addr \<times> heap"

text \<open>An object literal: the record is written at the next unused address.\<close>

definition new_env :: "EnvList \<Rightarrow> heap \<Rightarrow> addr \<times> heap" where
  "new_env e h =
     (next_env h, h\<lparr>envs := (envs h)(next_env h := e), next_env := Suc (next_env h)\<rparr>)"

text \<open>\<open>item.env = v\<close> (\<open>None\<close>: \<open>delete item.env\<close>) and \<open>item.global = g\<close>.\<close>

definition set_item_env :: "addr \<Rightarrow> addr option \<Rightarrow> heap \<Rightarrow> heap" where
  "set_item_env a v h = h\<lparr>items := (items h)(a := (items h a)\<lparr>item_env := v\<rparr>)\<rparr>"

definition set_item_global :: "addr \<Rightarrow> addr \<Rightarrow> heap \<Rightarrow> heap" where
  "set_item_global a g h = h\<lparr>items := (items h)(a := (items h a)\<lparr>item_global := Some g\<rparr>)\<rparr>"

subsection \<open>Top\<close>

text \<open>\<open>xs[i]\<close> for a number \<open>i\<close>: \<open>undefined\<close> outside the array.\<close>

definition js_index :: "'a list \<Rightarrow> int \<Rightarrow> 'a option" where
  "js_index xs i = (if 0 \<le> i \<and> i < int (length xs) then Some (xs ! nat i) else None)"

text \<open>
  \<open>Top(n)\<close>: the argument is optional (\<open>None\<close>: not given). The result \<open>None\<close> stands
  for \<open>null\<close> and for \<open>undefined\<close>. The method assigns to nothing but its own
  parameter, so the model is a function of the stack alone.
\<close>

definition Top :: "Stack \<Rightarrow> int option \<Rightarrow> addr option" where
  "Top s n =
     (let n' = (case n of None \<Rightarrow> 1 | Some k \<Rightarrow> k);
          len = int (length (stack s))
      in if len < n' then None else js_index (stack s) (len - n'))"

subsection \<open>Pop\<close>

text \<open>
  \<open>Pop()\<close>. On an empty array \<open>this.stack.pop()\<close> is \<open>undefined\<close> and reading
  \<open>item.isOpen\<close> raises a \<open>TypeError\<close>. Otherwise the item leaves the array, its
  \<open>env\<close> property is deleted unless it is open, and the current environment becomes
  the new top's \<open>env\<close>, or a new empty record when nothing is left.
\<close>

definition Pop :: "state \<Rightarrow> error + addr \<times> state" where
  "Pop sh =
     (case sh of (s, h) \<Rightarrow>
        if stack s = [] then Inl TypeError
        else
          let item = last (stack s);
              s1 = s\<lparr>stack := butlast (stack s)\<rparr>;
              h1 = (if \<not> isOpen (items h item) then set_item_env item None h else h)
          in if stack s1 \<noteq> []
             then (case Top s1 None of
                     None \<Rightarrow> Inl TypeError
                   | Some t \<Rightarrow> Inr (item, s1\<lparr>env := item_env (items h1 t)\<rparr>, h1))
             else (case new_env [] h1 of
                     (e, h2) \<Rightarrow> Inr (item, s1\<lparr>env := Some e\<rparr>, h2)))"

subsection \<open>Push\<close>

text \<open>
  The loop \<open>for (let id in this.env) if (this.env.hasOwnProperty(id)) item.env[id] =
  this.env[id]\<close> over the own property names of the source record \<open>src\<close>, writing into
  the record \<open>dst\<close>. Both records are read from the heap at every step, so the model is
  right also when the two are the same object.
\<close>

fun overlay :: "string list \<Rightarrow> addr \<Rightarrow> addr \<Rightarrow> heap \<Rightarrow> heap" where
  "overlay [] src dst h = h"
| "overlay (k # ks) src dst h =
     overlay ks src dst
       (h\<lparr>envs := (envs h)(dst := env_set (envs h dst) k (env_get (envs h src) k))\<rparr>)"

text \<open>
  The accepting branch of \<open>Push\<close> (\<open>else if (top)\<close>): the item is appended; an item
  with an \<open>env\<close> of its own receives the properties of the current environment and its
  record becomes the current one, an item without takes the current record by reference.
  A \<open>for ... in\<close> over an undefined current environment runs no step.
\<close>

definition accept :: "addr \<Rightarrow> state \<Rightarrow> state" where
  "accept item sh =
     (case sh of (s, h) \<Rightarrow>
        let s1 = s\<lparr>stack := stack s @ [item]\<rparr>
        in (case item_env (items h item) of
              Some ie \<Rightarrow>
                (s1\<lparr>env := Some ie\<rparr>,
                 (case env s of
                    Some e \<Rightarrow> overlay (map fst (envs h e)) e ie h
                  | None \<Rightarrow> h))
            | None \<Rightarrow> (s1, set_item_env item (env s) h)))"

text \<open>
  The head of the loop body for an argument that is not null: a raw node is wrapped by
  \<open>create('mml', node)\<close>, the item's \<open>global\<close> is set to the stack's, and the top
  item's \<open>checkItem\<close> is asked (an empty stack accepts). The result is the item, the
  answer and the heap the collaborators left. (The loop lets no null argument through;
  one would fail at \<open>item.global = this.global\<close>.)
\<close>

definition prepare ::
  "checkItem \<Rightarrow> factory \<Rightarrow> arg \<Rightarrow> state \<Rightarrow> error + addr \<times> CheckType \<times> heap" where
  "prepare chk fac node sh =
     (case sh of (s, h) \<Rightarrow>
        (case (case node of
                 Node n \<Rightarrow> fac ''mml'' (NodeArg n) h
               | Item i \<Rightarrow> Inr (i, h)
               | Null \<Rightarrow> Inl TypeError) of
           Inl e \<Rightarrow> Inl e
         | Inr (item, h1) \<Rightarrow>
             let h2 = set_item_global item (global s) h1
             in if stack s \<noteq> []
                then (case Top s None of
                        None \<Rightarrow> Inl TypeError
                      | Some t \<Rightarrow>
                          (case chk h2 t item of
                             Inl e \<Rightarrow> Inl e
                           | Inr (r, h3) \<Rightarrow> Inr (item, r, h3)))
                else Inr (item, Flag True, h2)))"

text \<open>
  \<open>Push(...args)\<close>. The loop over the arguments is the recursion on the list. A
  replacement makes \<open>Push\<close> call itself, and nothing bounds how often the items may
  answer with replacements, so these calls are counted: the first argument is the depth
  of nested calls still allowed, and \<open>None\<close> says that it was exceeded.
\<close>

fun Push :: "nat \<Rightarrow> checkItem \<Rightarrow> factory \<Rightarrow> arg list \<Rightarrow> state \<Rightarrow> (error + state) option" where
  "Push n chk fac [] sh = Some (Inr sh)"
| "Push n chk fac (node # args) sh =
     (if node = Null then Push n chk fac args sh
      else
        (case prepare chk fac node sh of
           Inl e \<Rightarrow> Some (Inl e)
         | Inr (item, r, h) \<Rightarrow>
             (case r of
                ReplaceList xs \<Rightarrow>
                  (case Pop (fst sh, h) of
                     Inl e \<Rightarrow> Some (Inl e)
                   | Inr (popped, sh1) \<Rightarrow>
                       (case n of
                          0 \<Rightarrow> None
                        | Suc m \<Rightarrow>
                            (case Push m chk fac xs sh1 of
                               None \<Rightarrow> None
                             | Some (Inl e) \<Rightarrow> Some (Inl e)
                             | Some (Inr sh2) \<Rightarrow> Push n chk fac args sh2)))
              | Replace x \<Rightarrow>
                  (case Pop (fst sh, h) of
                     Inl e \<Rightarrow> Some (Inl e)
                   | Inr (popped, sh1) \<Rightarrow>
                       (case n of
                          0 \<Rightarrow> None
                        | Suc m \<Rightarrow>
                            (case Push m chk fac [Item x] sh1 of
                               None \<Rightarrow> None
                             | Some (Inl e) \<Rightarrow> Some (Inl e)
                             | Some (Inr sh2) \<Rightarrow> Push n chk fac args sh2)))
              | Flag b \<Rightarrow>
                  (if b then Push n chk fac args (accept item (fst sh, h))
                   else Push n chk fac args (fst sh, h)))))"

subsection \<open>The constructor\<close>

text \<open>
  \<open>new Stack(factory, _env, inner)\<close>: the global record \<open>{isInner: inner}\<close> is created,
  the factory makes the start item from it, a given \<open>_env\<close> becomes the start item's
  \<open>env\<close>, and the current environment is the start item's \<open>env\<close>. (The records of the
  field initialisers \<open>global = {}\<close> and \<open>stack = []\<close> are overwritten at once and are
  left out.)
\<close>

definition Stack_new :: "factory \<Rightarrow> addr option \<Rightarrow> bool \<Rightarrow> heap \<Rightarrow> error + state" where
  "Stack_new fac env0 inner h =
     (case new_env [(''isInner'', VBool inner)] h of
        (g, h1) \<Rightarrow>
          (case fac ''start'' (GlobalArg g) h1 of
             Inl e \<Rightarrow> Inl e
           | Inr (start, h2) \<Rightarrow>
               let h3 = (case env0 of Some e \<Rightarrow> set_item_env start (Some e) h2 | None \<Rightarrow> h2)
               in Inr (\<lparr>global = g, stack = [start], env = item_env (items h3 start)\<rparr>, h3)))"

subsection \<open>Prev\<close>

text \<open>
  Modelled from the spec: the item's own \<open>Last\<close> and \<open>Pop\<close> (the item classes are not
  among the sources). \<open>Last\<close> is the item's most recently accumulated child node, absent
  when it has none; the item's \<open>Pop\<close> removes and returns it.
\<close>

definition Last :: "StackItem \<Rightarrow> MmlNode option" where
  "Last it = (if nodes it = [] then None else Some (last (nodes it)))"

definition item_Pop :: "StackItem \<Rightarrow> MmlNode option \<times> StackItem" where
  "item_Pop it = (Last it, it\<lparr>nodes := butlast (nodes it)\<rparr>)"

text \<open>
  \<open>Prev(noPop)\<close>: \<open>this.Top()\<close> is \<open>null\<close> on an empty stack, and reading \<open>top.Last\<close>
  or \<open>top.Pop\<close> then raises a \<open>TypeError\<close>.
\<close>

definition Prev :: "bool \<Rightarrow> state \<Rightarrow> error + MmlNode option \<times> state" where
  "Prev noPop sh =
     (case sh of (s, h) \<Rightarrow>
        (case Top s None of
           None \<Rightarrow> Inl TypeError
         | Some t \<Rightarrow>
             if noPop then Inr (Last (items h t), s, h)
             else (case item_Pop (items h t) of
                     (nd, it) \<Rightarrow> Inr (nd, s, h\<lparr>items := (items h)(t := it)\<rparr>))))"

subsection \<open>Sequences of calls\<close>

text \<open>A caller's sequence of \<open>Push\<close> and \<open>Pop\<close> calls; the first error ends it.\<close>

datatype op = DoPush "arg list" | DoPop

fun run :: "nat \<Rightarrow> checkItem \<Rightarrow> factory \<Rightarrow> op list \<Rightarrow> state \<Rightarrow> (error + state) option" where
  "run n chk fac [] sh = Some (Inr sh)"
| "run n chk fac (DoPush args # ops) sh =
     (case Push n chk fac args sh of
        None \<Rightarrow> None
      | Some (Inl e) \<Rightarrow> Some (Inl e)
      | Some (Inr sh') \<Rightarrow> run n chk fac ops sh')"
| "run n chk fac (DoPop # ops) sh =
     (case Pop sh of
        Inl e \<Rightarrow> Some (Inl e)
      | Inr (popped, sh') \<Rightarrow> run n chk fac ops sh')"

text \<open>
  The pushes of the items \<open>is\<close>, one after the other from the state \<open>sh\<close>, are all
  plainly accepted: each time the top item's \<open>checkItem\<close> returns \<open>true\<close>.
\<close>

fun plainly_accepted :: "checkItem \<Rightarrow> factory \<Rightarrow> addr list \<Rightarrow> state \<Rightarrow> bool" where
  "plainly_accepted chk fac [] sh = True"
| "plainly_accepted chk fac (i # is) sh =
     (case prepare chk fac (Item i) sh of
        Inl e \<Rightarrow> False
      | Inr (j, r, h) \<Rightarrow>
          r = Flag True \<and> plainly_accepted chk fac is (accept i (fst sh, h)))"

subsection \<open>Invariants and what is assumed of the collaborators\<close>

text \<open>
  The current environment is the \<open>env\<close> of the top item, and an empty record when the
  stack is empty.
\<close>

definition env_inv :: "state \<Rightarrow> bool" where
  "env_inv sh =
     (case sh of (s, h) \<Rightarrow>
        if stack s = [] then (case env s of Some e \<Rightarrow> envs h e = [] | None \<Rightarrow> False)
        else env s = item_env (items h (last (stack s))))"

text \<open>Every item on the stack has the stack's global record as its \<open>global\<close>.\<close>

definition global_inv :: "state \<Rightarrow> bool" where
  "global_inv sh =
     (case sh of (s, h) \<Rightarrow> \<forall>a\<in>set (stack s). item_global (items h a) = Some (global s))"

text \<open>An item is allocated when its address is below the next unused one.\<close>

definition arg_ok :: "heap \<Rightarrow> arg \<Rightarrow> bool" where
  "arg_ok h x = (case x of Item a \<Rightarrow> a < next_item h | Node nd \<Rightarrow> True | Null \<Rightarrow> True)"

definition answer_ok :: "heap \<Rightarrow> CheckType \<Rightarrow> bool" where
  "answer_ok h r =
     (case r of
        Flag b \<Rightarrow> True
      | Replace x \<Rightarrow> x < next_item h
      | ReplaceList xs \<Rightarrow> list_all (arg_ok h) xs)"

definition op_ok :: "heap \<Rightarrow> op \<Rightarrow> bool" where
  "op_ok h x = (case x of DoPush args \<Rightarrow> list_all (arg_ok h) args | DoPop \<Rightarrow> True)"

text \<open>The items on the stack are allocated.\<close>

definition allocated :: "state \<Rightarrow> bool" where
  "allocated sh = (\<forall>a\<in>set (stack (fst sh)). a < next_item (snd sh))"

text \<open>
  What a collaborator may do to the heap: create items, and change anything but the
  \<open>env\<close> and \<open>global\<close> properties of the items that exist already.
\<close>

definition preserves :: "heap \<Rightarrow> heap \<Rightarrow> bool" where
  "preserves h h' =
     (next_item h \<le> next_item h' \<and>
      (\<forall>a<next_item h.
         item_env (items h' a) = item_env (items h a) \<and>
         item_global (items h' a) = item_global (items h a)))"

definition chk_ok :: "checkItem \<Rightarrow> bool" where
  "chk_ok chk = (\<forall>h t i r h'. chk h t i = Inr (r, h') \<longrightarrow> preserves h h' \<and> answer_ok h' r)"

definition fac_ok :: "factory \<Rightarrow> bool" where
  "fac_ok fac = (\<forall>k a h i h'. fac k a h = Inr (i, h') \<longrightarrow> preserves h h' \<and> i < next_item h')"




text \<open>
  \<open>checkItem\<close> behind a guard that fails unless the candidate's \<open>global\<close> is the record
  \<open>g\<close> when the check starts.
\<close>

definition global_guard :: "addr \<Rightarrow> checkItem \<Rightarrow> checkItem" where
  "global_guard g chk =
     (\<lambda>h t i. if item_global (items h i) = Some g then chk h t i else Inl TypeError)"

subsection \<open>Sample collaborators and states\<close>

text \<open>
  A factory in the manner of the parser's own: the start item is open, has a new empty
  \<open>env\<close> and the global record it was given; an \<open>mml\<close> item is closed, has no \<open>env\<close>
  and holds the node. Other kinds are unknown.
\<close>

definition ex_factory :: factory where
  "ex_factory k a h =
     (if k = ''start'' then
        (case a of
           GlobalArg g \<Rightarrow>
             (case new_env [] h of
                (e, h1) \<Rightarrow>
                  Inr (next_item h1,
                       h1\<lparr>items := (items h1)(next_item h1 :=
                             \<lparr>kind = ''start'', isOpen = True, item_env = Some e,
                              item_global = Some g, nodes = []\<rparr>),
                           next_item := Suc (next_item h1)\<rparr>))
         | NodeArg nd \<Rightarrow> Inl (TexError ''start''))
      else if k = ''mml'' then
        (case a of
           NodeArg nd \<Rightarrow>
             Inr (next_item h,
                  h\<lparr>items := (items h)(next_item h :=
                        \<lparr>kind = ''mml'', isOpen = False, item_env = None,
                         item_global = None, nodes = [nd]\<rparr>),
                    next_item := Suc (next_item h)\<rparr>)
         | GlobalArg g \<Rightarrow> Inl (TexError ''mml''))
      else Inl (TexError ''UnknownItemKind''))"

text \<open>Checks that accept, or reject, every candidate and leave the heap alone.\<close>

definition chk_accept :: checkItem where
  "chk_accept h t i = Inr (Flag True, h)"


text \<open>
  A check that answers the candidate at address 4 with the replacement list of the items
  2 and 3, and every other candidate with the flag \<open>b\<close>.
\<close>

definition chk_close :: "bool \<Rightarrow> checkItem" where
  "chk_close b h t i =
     (if i = 4 then Inr (ReplaceList [Item 2, Item 3], h) else Inr (Flag b, h))"

text \<open>
  A check with an effect: an \<open>mml\<close> candidate is absorbed (its nodes are appended to the
  top item's and the answer is \<open>false\<close>), a \<open>close\<close> candidate is answered with a
  replacement list, every other candidate is accepted.
\<close>

definition chk_base :: checkItem where
  "chk_base h t i =
     (if kind (items h i) = ''mml''
      then Inr (Flag False,
                h\<lparr>items := (items h)(t := (items h t)\<lparr>nodes := nodes (items h t) @ nodes (items h i)\<rparr>)\<rparr>)
      else if kind (items h i) = ''close'' then Inr (ReplaceList [Node 0, Null], h)
      else Inr (Flag True, h))"

text \<open>
  A check that answers every candidate with the list of the top item and the candidate:
  the top item is popped and pushed again, and the candidate meets it once more.
\<close>

definition chk_again :: checkItem where
  "chk_again h t i = Inr (ReplaceList [Item t, Item i], h)"

text \<open>
  A heap with five items and five records: item 0 is a start item whose \<open>env\<close> is the
  record \<open>{a: 0, b: 2}\<close>, item 1 is open and has the record \<open>{a: 1}\<close> of its own, item 2
  is open and has no \<open>env\<close>, item 3 is closed and has a record, item 4 is closed and
  has none; record 2 is the global record and record 4 is empty.
\<close>

definition ex_items :: "addr \<Rightarrow> StackItem" where
  "ex_items =
     (\<lambda>a. \<lparr>kind = ''mml'', isOpen = False, item_env = None, item_global = None, nodes = []\<rparr>)
       (0 := \<lparr>kind = ''start'', isOpen = True, item_env = Some 0, item_global = Some 2, nodes = []\<rparr>,
        1 := \<lparr>kind = ''open'', isOpen = True, item_env = Some 1, item_global = None, nodes = []\<rparr>,
        2 := \<lparr>kind = ''open'', isOpen = True, item_env = None, item_global = None, nodes = []\<rparr>,
        3 := \<lparr>kind = ''cell'', isOpen = False, item_env = Some 3, item_global = Some 2, nodes = []\<rparr>,
        4 := \<lparr>kind = ''close'', isOpen = False, item_env = None, item_global = None, nodes = []\<rparr>)"

definition ex_heap :: heap where
  "ex_heap =
     \<lparr>items = ex_items,
      envs = (\<lambda>a. [])
        (0 := [(''a'', VNum 0), (''b'', VNum 2)],
         1 := [(''a'', VNum 1)],
         2 := [(''isInner'', VBool False)],
         3 := [(''c'', VNum 3)]),
      next_item = 5, next_env = 5\<rparr>"

text \<open>Stacks over this heap: the start item alone; items 0 and 1; item 3 twice above
  item 0; items 0 and 3; and an empty stack whose current environment is the empty
  record 4.\<close>

definition ex_stack :: Stack where
  "ex_stack = \<lparr>global = 2, stack = [0], env = Some 0\<rparr>"

definition ex_stack2 :: Stack where
  "ex_stack2 = \<lparr>global = 2, stack = [0, 1], env = Some 1\<rparr>"

definition ex_stack_twice :: Stack where
  "ex_stack_twice = \<lparr>global = 2, stack = [0, 3, 3], env = Some 3\<rparr>"

definition ex_stack3 :: Stack where
  "ex_stack3 = \<lparr>global = 2, stack = [0, 3], env = Some 3\<rparr>"

definition ex_empty :: Stack where
  "ex_empty = \<lparr>global = 2, stack = [], env = Some 4\<rparr>"

subsection \<open>Reading a result\<close>

text \<open>The state a call returned, when it returned one (no error, depth not exceeded).\<close>

definition returned :: "(error + 'a) option \<Rightarrow> 'a option" where
  "returned r = (case r of Some (Inr x) \<Rightarrow> Some x | Some (Inl e) \<Rightarrow> None | None \<Rightarrow> None)"

text \<open>The record the current environment designates, when there is one.\<close>

definition current_env :: "state \<Rightarrow> EnvList option" where
  "current_env sh = (case env (fst sh) of Some e \<Rightarrow> Some (envs (snd sh) e) | None \<Rightarrow> None)"

section \<open>Properties\<close>

subsection \<open>Top, environment records and the overlay loop\<close>

lemma Top_nonempty: "stack s \<noteq> [] \<Longrightarrow> Top s None = Some (last (stack s))"
  by (cases "stack s" rule: rev_cases) (simp_all add: Top_def js_index_def)

lemma Top_empty: "stack s = [] \<Longrightarrow> Top s n = None"
  by (simp add: Top_def js_index_def split: option.splits)

lemma env_set_map_of: "map_of (env_set e k v) = (map_of e)(k \<mapsto> v)"
  by (induction e k v rule: env_set.induct) auto

lemma env_set_same: "map_of e k = Some v \<Longrightarrow> env_set e k v = e"
  by (induction e k v rule: env_set.induct) (auto split: if_splits)

lemma env_get_key: "k \<in> fst ` set e \<Longrightarrow> map_of e k = Some (env_get e k)"
  by (auto simp: env_get_def map_of_eq_None_iff split: option.splits)

lemma overlay_items [simp]: "items (overlay ks src dst h) = items h"
  by (induction ks src dst h rule: overlay.induct) simp_all

lemma overlay_next_item [simp]: "next_item (overlay ks src dst h) = next_item h"
  by (induction ks src dst h rule: overlay.induct) simp_all

lemma overlay_next_env [simp]: "next_env (overlay ks src dst h) = next_env h"
  by (induction ks src dst h rule: overlay.induct) simp_all

lemma overlay_other: "a \<noteq> dst \<Longrightarrow> envs (overlay ks src dst h) a = envs h a"
  by (induction ks src dst h rule: overlay.induct) simp_all

lemma overlay_self: "set ks \<subseteq> fst ` set (envs h e) \<Longrightarrow> overlay ks e e h = h"
proof (induction ks)
  case Nil
  then show ?case by simp
next
  case (Cons k ks)
  then have "env_set (envs h e) k (env_get (envs h e) k) = envs h e"
    by (simp add: env_set_same env_get_key)
  then have "h\<lparr>envs := (envs h)(e := env_set (envs h e) k (env_get (envs h e) k))\<rparr> = h"
    by simp
  with Cons show ?case by simp
qed

lemma overlay_map_of:
  "src \<noteq> dst \<Longrightarrow> set ks \<subseteq> fst ` set (envs h src) \<Longrightarrow>
   map_of (envs (overlay ks src dst h) dst) = map_of (envs h dst) ++ (map_of (envs h src) |` set ks)"
proof (induction ks arbitrary: h)
  case Nil
  then show ?case by simp
next
  case (Cons k ks)
  let ?h = "h\<lparr>envs := (envs h)(dst := env_set (envs h dst) k (env_get (envs h src) k))\<rparr>"
  from Cons.prems have k: "map_of (envs h src) k = Some (env_get (envs h src) k)"
    by (simp add: env_get_key)
  have "map_of (envs (overlay ks src dst ?h) dst) =
        map_of (envs ?h dst) ++ (map_of (envs ?h src) |` set ks)"
    using Cons.prems by (intro Cons.IH) auto
  also have "\<dots> = (map_of (envs h dst))(k \<mapsto> env_get (envs h src) k) ++ (map_of (envs h src) |` set ks)"
    using Cons.prems by (simp add: env_set_map_of)
  also have "\<dots> = map_of (envs h dst) ++ (map_of (envs h src) |` set (k # ks))"
    using k by (auto simp: fun_eq_iff map_add_def restrict_map_def split: option.splits)
  finally show ?case by simp
qed

lemma overlay_all_map_of:
  "map_of (envs (overlay (map fst (envs h src)) src dst h) dst) =
   map_of (envs h dst) ++ map_of (envs h src)"
proof (cases "src = dst")
  case True
  then show ?thesis
    by (auto simp: overlay_self fun_eq_iff map_add_def split: option.splits)
next
  case False
  have "map_of (envs h src) |` set (map fst (envs h src)) = map_of (envs h src)"
    by (auto simp: fun_eq_iff restrict_map_def map_of_eq_None_iff [symmetric])
  with False show ?thesis by (simp add: overlay_map_of)
qed

subsection \<open>Top\<close>

text \<open>
  Claim C7. For every stack and every integer \<open>n\<close> greater than the length of the
  stack, \<open>Top(n)\<close> returns the absent result and does not throw; without an argument
  \<open>Top\<close> is \<open>Top(1)\<close>, the topmost item of a stack that has one. \<open>Top\<close> returns a
  value only: neither the stack nor the current environment can change.
\<close>

theorem Top_beyond_depth_is_absent:
  "(\<forall>n. int (length (stack s)) < n \<longrightarrow> Top s (Some n) = None) \<and>
   Top s None = Top s (Some 1) \<and>
   (stack s \<noteq> [] \<longrightarrow> Top s None = Some (last (stack s)))"
  by (simp add: Top_nonempty) (simp add: Top_def)

theorem Top_beyond_depth_is_absent_witness:
  "int (length (stack ex_stack2)) < 3 \<and> Top ex_stack2 (Some 3) = None \<and>
   stack ex_stack2 \<noteq> [] \<and> Top ex_stack2 None = Some 1 \<and> Top ex_stack2 (Some 1) = Some 1 \<and>
   Top ex_stack2 (Some 2) = Some 0"
  using Top_beyond_depth_is_absent [of ex_stack2]
  by (simp add: ex_stack2_def Top_def js_index_def)

subsection \<open>Pop and Prev on an empty stack\<close>

text \<open>
  Claim C3, as the code has it. \<open>Pop\<close> and \<open>Prev\<close> on a stack without items do fail,
  and do not return: the failure is the runtime's \<open>TypeError\<close> from reading a property
  of the absent item. \<open>Stack.ts\<close> raises no error of its own, so nothing structured
  (no \<open>StackUnderflow\<close>, no \<open>TexError\<close>) reaches the caller.
\<close>

theorem Pop_Prev_empty_TypeError:
  "stack s = [] \<Longrightarrow> Pop (s, h) = Inl TypeError \<and> Prev noPop (s, h) = Inl TypeError"
  by (simp add: Pop_def Prev_def Top_empty)

theorem Pop_Prev_empty_TypeError_witness:
  "stack ex_empty = [] \<and> Pop (ex_empty, ex_heap) = Inl TypeError \<and>
   Prev False (ex_empty, ex_heap) = Inl TypeError \<and> Prev True (ex_empty, ex_heap) = Inl TypeError"
  using Pop_Prev_empty_TypeError [of ex_empty ex_heap False]
        Pop_Prev_empty_TypeError [of ex_empty ex_heap True]
  by (simp add: ex_empty_def)

text \<open>
  The claim as the specification states it fails on the empty sample stack: what \<open>Pop\<close>
  raises there is a \<open>TypeError\<close>, not a structured parse error.
\<close>

theorem Pop_empty_not_structured_counterexample:
  "Pop (ex_empty, ex_heap) = Inl TypeError \<and>
   Pop (ex_empty, ex_heap) \<noteq> Inl (TexError ''StackUnderflow'') \<and>
   Prev False (ex_empty, ex_heap) \<noteq> Inl (TexError ''StackUnderflow'')"
  by (simp add: Pop_def Prev_def Top_def js_index_def ex_empty_def)

subsection \<open>The steps of Push and Pop\<close>

lemma prepare_Item:
  "prepare chk fac (Item i) (s, h) =
     (if stack s = [] then Inr (i, Flag True, set_item_global i (global s) h)
      else (case chk (set_item_global i (global s) h) (last (stack s)) i of
              Inl e \<Rightarrow> Inl e
            | Inr (r, h') \<Rightarrow> Inr (i, r, h')))"
  by (simp add: prepare_def Top_nonempty)

lemma prepare_empty_accepts:
  "prepare chk fac node (s, h) = Inr (i, r, h') \<Longrightarrow> stack s = [] \<Longrightarrow> r = Flag True"
  by (auto simp: prepare_def split: arg.splits sum.splits)

lemma prepare_InrE:
  assumes "prepare chk fac node (s, h) = Inr (i, r, h')"
  obtains h1 where
    "(node = Item i \<and> h1 = h) \<or> (\<exists>nd. node = Node nd \<and> fac ''mml'' (NodeArg nd) h = Inr (i, h1))"
    "(stack s = [] \<and> r = Flag True \<and> h' = set_item_global i (global s) h1) \<or>
     (stack s \<noteq> [] \<and> chk (set_item_global i (global s) h1) (last (stack s)) i = Inr (r, h'))"
  using assms
  by (auto simp: prepare_def Let_def Top_nonempty split: arg.splits sum.splits if_splits)

lemma accept_own_env:
  "item_env (items h i) = Some f \<Longrightarrow>
   accept i (s, h) =
     (s\<lparr>stack := stack s @ [i], env := Some f\<rparr>,
      (case env s of Some e \<Rightarrow> overlay (map fst (envs h e)) e f h | None \<Rightarrow> h))"
  by (simp add: accept_def Let_def)

lemma accept_no_env:
  "item_env (items h i) = None \<Longrightarrow>
   accept i (s, h) = (s\<lparr>stack := stack s @ [i]\<rparr>, set_item_env i (env s) h)"
  by (simp add: accept_def Let_def)

lemma accept_stack [simp]: "stack (fst (accept i (s, h))) = stack s @ [i]"
  by (simp add: accept_def Let_def split: option.splits)

lemma accept_global [simp]: "global (fst (accept i (s, h))) = global s"
  by (simp add: accept_def Let_def split: option.splits)

lemma accept_next_item [simp]: "next_item (snd (accept i (s, h))) = next_item h"
  by (simp add: accept_def Let_def set_item_env_def split: option.splits)

lemma accept_next_env [simp]: "next_env (snd (accept i (s, h))) = next_env h"
  by (simp add: accept_def Let_def set_item_env_def split: option.splits)

lemma accept_item_global [simp]:
  "item_global (items (snd (accept i (s, h))) a) = item_global (items h a)"
  by (simp add: accept_def Let_def set_item_env_def split: option.splits)

lemma accept_item_env_other:
  "a \<noteq> i \<Longrightarrow> item_env (items (snd (accept i (s, h))) a) = item_env (items h a)"
  by (simp add: accept_def Let_def set_item_env_def split: option.splits)

lemma accept_env_is_top_env:
  "env (fst (accept i (s, h))) = item_env (items (snd (accept i (s, h))) i)"
  by (simp add: accept_def Let_def set_item_env_def split: option.splits)

lemma Pop_nonempty:
  "stack s \<noteq> [] \<Longrightarrow> \<exists>s' h'. Pop (s, h) = Inr (last (stack s), s', h')"
  by (cases "butlast (stack s) = []") (simp_all add: Pop_def Let_def new_env_def Top_nonempty)

lemma Pop_Inr_stack:
  "Pop (s, h) = Inr (i, s', h') \<Longrightarrow>
   stack s \<noteq> [] \<and> i = last (stack s) \<and> stack s' = butlast (stack s) \<and> global s' = global s"
  by (auto simp: Pop_def Let_def new_env_def split: if_splits option.splits prod.splits)

lemma Pop_Inr_heap:
  "Pop (s, h) = Inr (i, s', h') \<Longrightarrow>
   next_item h' = next_item h \<and>
   (\<forall>a. item_global (items h' a) = item_global (items h a) \<and>
        isOpen (items h' a) = isOpen (items h a) \<and>
        nodes (items h' a) = nodes (items h a)) \<and>
   (\<forall>a. a \<noteq> i \<longrightarrow> items h' a = items h a) \<and>
   item_env (items h' i) = (if isOpen (items h i) then item_env (items h i) else None) \<and>
   (\<forall>e. e \<noteq> next_env h \<longrightarrow> envs h' e = envs h e) \<and>
   (stack s' \<noteq> [] \<longrightarrow> envs h' = envs h \<and> next_env h' = next_env h)"
  by (auto simp: Pop_def Let_def new_env_def set_item_env_def
           split: if_splits option.splits prod.splits)

lemma Pop_env_inv: "Pop (s, h) = Inr (i, s', h') \<Longrightarrow> env_inv (s', h')"
  by (auto simp: Pop_def Let_def new_env_def env_inv_def Top_nonempty
           split: if_splits option.splits prod.splits)

subsection \<open>Pushing an item that has an environment of its own\<close>

text \<open>
  Claim C1, as the code has it. When the check accepts an item that carries an \<open>env\<close>
  record of its own (\<open>h1\<close> is the heap as the check leaves it), \<open>Push\<close> returns with
  the item on top, the item's record is the new current environment, and that record
  holds the item's properties overlaid with every property of the previous current
  environment: where both define a key, the value of the previous current environment
  replaces the item's. For the current environment \<open>{a: 0, b: 2}\<close> and the item record
  \<open>{a: 1}\<close> the new current environment is \<open>{a: 0, b: 2}\<close>.
\<close>

theorem Push_own_env_overlay:
  assumes "prepare chk fac (Item i) (s, h) = Inr (i, Flag True, h1)"
    and "item_env (items h1 i) = Some f"
    and "env s = Some e"
  shows "Push n chk fac [Item i] (s, h) = Some (Inr (accept i (s, h1))) \<and>
         stack (fst (accept i (s, h1))) = stack s @ [i] \<and>
         env (fst (accept i (s, h1))) = Some f \<and>
         map_of (envs (snd (accept i (s, h1))) f) = map_of (envs h1 f) ++ map_of (envs h1 e)"
proof -
  have "Push n chk fac [Item i] (s, h) = Some (Inr (accept i (s, h1)))"
    using assms(1) by simp
  moreover have "accept i (s, h1) =
      (s\<lparr>stack := stack s @ [i], env := Some f\<rparr>, overlay (map fst (envs h1 e)) e f h1)"
    using assms(2,3) by (simp add: accept_own_env)
  ultimately show ?thesis
    by (simp add: overlay_all_map_of)
qed

theorem Push_own_env_overlay_witness:
  "prepare chk_accept ex_factory (Item 1) (ex_stack, ex_heap) =
     Inr (1, Flag True, set_item_global 1 2 ex_heap) \<and>
   item_env (items (set_item_global 1 2 ex_heap) 1) = Some 1 \<and>
   env ex_stack = Some 0 \<and>
   envs (set_item_global 1 2 ex_heap) 0 = [(''a'', VNum 0), (''b'', VNum 2)] \<and>
   envs (set_item_global 1 2 ex_heap) 1 = [(''a'', VNum 1)] \<and>
   Push 0 chk_accept ex_factory [Item 1] (ex_stack, ex_heap) =
     Some (Inr (accept 1 (ex_stack, set_item_global 1 2 ex_heap))) \<and>
   stack (fst (accept 1 (ex_stack, set_item_global 1 2 ex_heap))) = [0, 1] \<and>
   env (fst (accept 1 (ex_stack, set_item_global 1 2 ex_heap))) = Some 1 \<and>
   map_of (envs (snd (accept 1 (ex_stack, set_item_global 1 2 ex_heap))) 1) =
     map_of [(''a'', VNum 0), (''b'', VNum 2)]"
proof -
  have p: "prepare chk_accept ex_factory (Item 1) (ex_stack, ex_heap) =
      Inr (1, Flag True, set_item_global 1 2 ex_heap)"
    by (simp add: prepare_Item chk_accept_def ex_stack_def)
  have f: "item_env (items (set_item_global 1 2 ex_heap) 1) = Some 1"
    by (simp add: set_item_global_def ex_heap_def ex_items_def)
  have e: "env ex_stack = Some 0"
    by (simp add: ex_stack_def)
  have r0: "envs (set_item_global 1 2 ex_heap) 0 = [(''a'', VNum 0), (''b'', VNum 2)]"
    and r1: "envs (set_item_global 1 2 ex_heap) 1 = [(''a'', VNum 1)]"
    by (simp_all add: set_item_global_def ex_heap_def)
  have "map_of [(''a'', VNum 1)] ++ map_of [(''a'', VNum 0), (''b'', VNum 2)] =
        map_of [(''a'', VNum 0), (''b'', VNum 2)]"
    by (simp add: fun_eq_iff)
  with Push_own_env_overlay [OF p f e, of 0] p f e r0 r1 show ?thesis
    by (simp add: ex_stack_def)
qed

text \<open>
  The claim as the specification states it fails on the sample state: the current
  environment is \<open>{a: 0, b: 2}\<close>, item 1 carries \<open>{a: 1}\<close>, the check accepts, and the
  new current environment is \<open>{a: 0, b: 2}\<close>, not \<open>{a: 1, b: 2}\<close>.
\<close>

theorem Push_own_env_item_key_wins_counterexample:
  "current_env (ex_stack, ex_heap) = Some [(''a'', VNum 0), (''b'', VNum 2)] \<and>
   map_option (envs ex_heap) (item_env (items ex_heap 1)) = Some [(''a'', VNum 1)] \<and>
   map_option current_env (returned (Push 0 chk_accept ex_factory [Item 1] (ex_stack, ex_heap))) =
     Some (Some [(''a'', VNum 0), (''b'', VNum 2)]) \<and>
   map_option current_env (returned (Push 0 chk_accept ex_factory [Item 1] (ex_stack, ex_heap))) \<noteq>
     Some (Some [(''a'', VNum 1), (''b'', VNum 2)])"
  by (simp add: prepare_Item accept_def Let_def current_env_def returned_def chk_accept_def
      set_item_global_def env_get_def ex_stack_def ex_heap_def ex_items_def)

text \<open>
  Claim C10. When \<open>Push\<close> accepts an item that carries an \<open>env\<close> record of its own
  (\<open>h1\<close> is the heap as the check leaves it), the overlay is written into that very
  record: afterwards the current environment is the address \<open>f\<close> the item's \<open>env\<close>
  held, which the item still holds, and the record at \<open>f\<close> holds what it held overlaid
  with the properties of the previous current environment (it is as it was when there
  was no current environment). No record is created, and the record that was the
  current environment before is as it was; indeed every record but the item's own is.
\<close>

theorem Push_own_env_in_place:
  assumes "prepare chk fac (Item i) (s, h) = Inr (i, Flag True, h1)"
    and "item_env (items h1 i) = Some f"
  shows "Push n chk fac [Item i] (s, h) = Some (Inr (accept i (s, h1))) \<and>
         env (fst (accept i (s, h1))) = Some f \<and>
         item_env (items (snd (accept i (s, h1))) i) = Some f \<and>
         next_env (snd (accept i (s, h1))) = next_env h1 \<and>
         (\<forall>e. env s = Some e \<longrightarrow>
            map_of (envs (snd (accept i (s, h1))) f) = map_of (envs h1 f) ++ map_of (envs h1 e)) \<and>
         (env s = None \<longrightarrow> envs (snd (accept i (s, h1))) f = envs h1 f) \<and>
         (\<forall>e. env s = Some e \<longrightarrow> envs (snd (accept i (s, h1))) e = envs h1 e) \<and>
         (\<forall>a. a \<noteq> f \<longrightarrow> envs (snd (accept i (s, h1))) a = envs h1 a)"
proof -
  have "Push n chk fac [Item i] (s, h) = Some (Inr (accept i (s, h1)))"
    using assms(1) by simp
  moreover have "envs (snd (accept i (s, h1))) e = envs h1 e" if "env s = Some e" for e
  proof (cases "e = f")
    case True
    with that assms(2) show ?thesis
      by (simp add: accept_own_env overlay_self)
  next
    case False
    with that assms(2) show ?thesis
      by (simp add: accept_own_env overlay_other)
  qed
  moreover have "envs (snd (accept i (s, h1))) a = envs h1 a" if "a \<noteq> f" for a
    using that assms(2) by (simp add: accept_own_env overlay_other split: option.splits)
  moreover have "map_of (envs (snd (accept i (s, h1))) f) = map_of (envs h1 f) ++ map_of (envs h1 e)"
    if "env s = Some e" for e
    using that assms(2) by (simp add: accept_own_env overlay_all_map_of)
  moreover have "envs (snd (accept i (s, h1))) f = envs h1 f" if "env s = None"
    using that assms(2) by (simp add: accept_own_env)
  ultimately show ?thesis
    using assms(2) by (simp add: accept_own_env split: option.splits)
qed

theorem Push_own_env_in_place_witness:
  "prepare chk_accept ex_factory (Item 1) (ex_stack, ex_heap) =
     Inr (1, Flag True, set_item_global 1 2 ex_heap) \<and>
   item_env (items ex_heap 1) = Some 1 \<and>
   item_env (items (set_item_global 1 2 ex_heap) 1) = Some 1 \<and>
   env ex_stack = Some 0 \<and>
   envs (set_item_global 1 2 ex_heap) 0 = [(''a'', VNum 0), (''b'', VNum 2)] \<and>
   envs (set_item_global 1 2 ex_heap) 1 = [(''a'', VNum 1)] \<and>
   Push 0 chk_accept ex_factory [Item 1] (ex_stack, ex_heap) =
     Some (Inr (accept 1 (ex_stack, set_item_global 1 2 ex_heap))) \<and>
   env (fst (accept 1 (ex_stack, set_item_global 1 2 ex_heap))) = Some 1 \<and>
   item_env (items (snd (accept 1 (ex_stack, set_item_global 1 2 ex_heap))) 1) = Some 1 \<and>
   next_env (snd (accept 1 (ex_stack, set_item_global 1 2 ex_heap))) = next_env ex_heap \<and>
   map_of (envs (snd (accept 1 (ex_stack, set_item_global 1 2 ex_heap))) 1) =
     map_of [(''a'', VNum 0), (''b'', VNum 2)] \<and>
   envs (snd (accept 1 (ex_stack, set_item_global 1 2 ex_heap))) 0 = envs ex_heap 0"
proof -
  have p: "prepare chk_accept ex_factory (Item 1) (ex_stack, ex_heap) =
      Inr (1, Flag True, set_item_global 1 2 ex_heap)"
    by (simp add: prepare_Item chk_accept_def ex_stack_def)
  have f: "item_env (items (set_item_global 1 2 ex_heap) 1) = Some 1"
    by (simp add: set_item_global_def ex_heap_def ex_items_def)
  have e: "env ex_stack = Some 0"
    by (simp add: ex_stack_def)
  have r0: "envs (set_item_global 1 2 ex_heap) 0 = [(''a'', VNum 0), (''b'', VNum 2)]"
    and r1: "envs (set_item_global 1 2 ex_heap) 1 = [(''a'', VNum 1)]"
    by (simp_all add: set_item_global_def ex_heap_def)
  have m: "map_of [(''a'', VNum 1)] ++ map_of [(''a'', VNum 0), (''b'', VNum 2)] =
        map_of [(''a'', VNum 0), (''b'', VNum 2)]"
    by (simp add: fun_eq_iff)
  from Push_own_env_in_place [OF p f, of 0] e r0 r1
  have "Push 0 chk_accept ex_factory [Item 1] (ex_stack, ex_heap) =
      Some (Inr (accept 1 (ex_stack, set_item_global 1 2 ex_heap)))"
    "env (fst (accept 1 (ex_stack, set_item_global 1 2 ex_heap))) = Some 1"
    "item_env (items (snd (accept 1 (ex_stack, set_item_global 1 2 ex_heap))) 1) = Some 1"
    "next_env (snd (accept 1 (ex_stack, set_item_global 1 2 ex_heap))) =
      next_env (set_item_global 1 2 ex_heap)"
    "map_of (envs (snd (accept 1 (ex_stack, set_item_global 1 2 ex_heap))) 1) =
      map_of [(''a'', VNum 1)] ++ map_of [(''a'', VNum 0), (''b'', VNum 2)]"
    "envs (snd (accept 1 (ex_stack, set_item_global 1 2 ex_heap))) 0 =
      envs (set_item_global 1 2 ex_heap) 0"
    by simp_all
  with p f e r0 r1 m show ?thesis
    by (simp add: set_item_global_def ex_heap_def ex_items_def)
qed

subsection \<open>A rejected candidate\<close>





subsection \<open>What Pop does to the popped item and to the others\<close>

text \<open>
  Claim C6, as the code has it. \<open>Pop\<close> on a stack that has an item returns the top
  item; a popped item that is not open has no \<open>env\<close> afterwards, one that is open keeps
  its \<open>env\<close>. No other item is changed and no record is changed (a record is created
  when the stack becomes empty). So the item that becomes the new top keeps its \<open>env\<close>
  and the record it designates, provided that it is not the popped item itself: the same
  item can stand on the stack twice, and then the deletion shows in the new top.
\<close>

theorem Pop_detaches_closed_env:
  assumes "stack s \<noteq> []"
  shows "\<exists>s' h'. Pop (s, h) = Inr (last (stack s), s', h') \<and>
           stack s' = butlast (stack s) \<and>
           (\<not> isOpen (items h (last (stack s))) \<longrightarrow> item_env (items h' (last (stack s))) = None) \<and>
           (isOpen (items h (last (stack s))) \<longrightarrow>
              item_env (items h' (last (stack s))) = item_env (items h (last (stack s)))) \<and>
           (\<forall>a. a \<noteq> last (stack s) \<longrightarrow> items h' a = items h a) \<and>
           (\<forall>e. e \<noteq> next_env h \<longrightarrow> envs h' e = envs h e) \<and>
           (butlast (stack s) \<noteq> [] \<and> last (butlast (stack s)) \<noteq> last (stack s) \<longrightarrow>
              Top s' None = Some (last (butlast (stack s))) \<and>
              item_env (items h' (last (butlast (stack s)))) =
                item_env (items h (last (butlast (stack s)))) \<and>
              envs h' = envs h)"
proof -
  from assms obtain s' h' where p: "Pop (s, h) = Inr (last (stack s), s', h')"
    using Pop_nonempty by blast
  from Pop_Inr_stack [OF p] Pop_Inr_heap [OF p] have
    "stack s' = butlast (stack s)"
    "item_env (items h' (last (stack s))) =
       (if isOpen (items h (last (stack s))) then item_env (items h (last (stack s))) else None)"
    "\<forall>a. a \<noteq> last (stack s) \<longrightarrow> items h' a = items h a"
    "\<forall>e. e \<noteq> next_env h \<longrightarrow> envs h' e = envs h e"
    "stack s' \<noteq> [] \<longrightarrow> envs h' = envs h"
    by simp_all
  with p show ?thesis
    by (auto simp: Top_nonempty)
qed

theorem Pop_detaches_closed_env_witness:
  "stack ex_stack3 \<noteq> [] \<and> \<not> isOpen (items ex_heap 3) \<and> item_env (items ex_heap 3) = Some 3 \<and>
   butlast (stack ex_stack3) \<noteq> [] \<and> last (butlast (stack ex_stack3)) \<noteq> last (stack ex_stack3) \<and>
   stack ex_stack2 \<noteq> [] \<and> isOpen (items ex_heap 1) \<and>
   (\<exists>s' h'. Pop (ex_stack3, ex_heap) = Inr (3, s', h') \<and> stack s' = [0] \<and>
      item_env (items h' 3) = None \<and> Top s' None = Some 0 \<and>
      item_env (items h' 0) = item_env (items ex_heap 0) \<and> envs h' = envs ex_heap) \<and>
   (\<exists>s' h'. Pop (ex_stack2, ex_heap) = Inr (1, s', h') \<and> stack s' = [0] \<and>
      item_env (items h' 1) = item_env (items ex_heap 1))"
proof -
  have a: "stack ex_stack3 \<noteq> []" and b: "stack ex_stack2 \<noteq> []"
    by (simp_all add: ex_stack3_def ex_stack2_def)
  have c: "\<not> isOpen (items ex_heap 3)" "item_env (items ex_heap 3) = Some 3"
    "isOpen (items ex_heap 1)"
    by (simp_all add: ex_heap_def ex_items_def)
  have d: "stack ex_stack3 = [0, 3]" "stack ex_stack2 = [0, 1]"
    by (simp_all add: ex_stack3_def ex_stack2_def)
  from Pop_detaches_closed_env [OF a, of ex_heap] Pop_detaches_closed_env [OF b, of ex_heap] c d
  show ?thesis
    by auto
qed

text \<open>
  The claim as the specification states it fails where the closed item 3 stands on the
  stack twice: popping it deletes its \<open>env\<close>, and the item that becomes the new top is
  item 3 again, whose \<open>env\<close> was record 3 before the call and is absent after it.
\<close>

theorem Pop_changes_new_top_env_counterexample:
  "Top ex_stack_twice (Some 2) = Some 3 \<and>
   \<not> isOpen (items ex_heap 3) \<and>
   item_env (items ex_heap 3) = Some 3 \<and>
   Pop (ex_stack_twice, ex_heap) =
     Inr (3, \<lparr>global = 2, stack = [0, 3], env = None\<rparr>, set_item_env 3 None ex_heap) \<and>
   Top \<lparr>global = 2, stack = [0, 3], env = None\<rparr> None = Some 3 \<and>
   item_env (items (set_item_env 3 None ex_heap) 3) = None"
  by (simp add: Pop_def Let_def Top_def js_index_def set_item_env_def ex_stack_twice_def
      ex_heap_def ex_items_def)

subsection \<open>A replacement list\<close>

text \<open>
  Claim C2, as the code has it. When the top item \<open>T\<close> answers the candidate with the
  list \<open>[X, Y]\<close>, \<open>Push\<close> pops \<open>T\<close> and pushes \<open>X\<close> and then \<open>Y\<close> by a call of itself,
  so each of the two is put to the \<open>checkItem\<close> of the item that is on top at that
  moment. When both are plainly accepted (the item below \<open>T\<close> accepts \<open>X\<close>, and \<open>X\<close>
  accepts \<open>Y\<close>), the call returns and the stack is what was below \<open>T\<close>, then \<open>X\<close>, then
  \<open>Y\<close>. One nested call is needed.
\<close>

theorem Push_replacement_list_order:
  assumes "prepare chk fac (Item i) (s, h) = Inr (i, ReplaceList [Item x, Item y], h1)"
    and "Pop (s, h1) = Inr (t, s2, h2)"
    and "prepare chk fac (Item x) (s2, h2) = Inr (x, Flag True, h3)"
    and "prepare chk fac (Item y) (accept x (s2, h3)) = Inr (y, Flag True, h4)"
  shows "Push (Suc n) chk fac [Item i] (s, h) =
           Some (Inr (accept y (fst (accept x (s2, h3)), h4))) \<and>
         t = last (stack s) \<and>
         stack (fst (accept y (fst (accept x (s2, h3)), h4))) = butlast (stack s) @ [x, y]"
proof -
  obtain s3 h3' where a: "accept x (s2, h3) = (s3, h3')"
    by (cases "accept x (s2, h3)")
  then have s3: "stack s3 = stack s2 @ [x]"
    using accept_stack [of x s2 h3] by simp
  have "Push n chk fac [Item x, Item y] (s2, h2) = Some (Inr (accept y (s3, h4)))"
    using assms(3,4) a by simp
  then have "Push (Suc n) chk fac [Item i] (s, h) = Some (Inr (accept y (s3, h4)))"
    using assms(1,2) by simp
  moreover have "t = last (stack s)" "stack s2 = butlast (stack s)"
    using Pop_Inr_stack [OF assms(2)] by simp_all
  ultimately show ?thesis
    using a s3 by simp
qed

theorem Push_replacement_list_order_witness:
  "prepare (chk_close True) ex_factory (Item 4) (ex_stack2, ex_heap) =
     Inr (4, ReplaceList [Item 2, Item 3], set_item_global 4 2 ex_heap) \<and>
   Pop (ex_stack2, set_item_global 4 2 ex_heap) =
     Inr (1, \<lparr>global = 2, stack = [0], env = Some 0\<rparr>, set_item_global 4 2 ex_heap) \<and>
   prepare (chk_close True) ex_factory (Item 2)
       (\<lparr>global = 2, stack = [0], env = Some 0\<rparr>, set_item_global 4 2 ex_heap) =
     Inr (2, Flag True, set_item_global 2 2 (set_item_global 4 2 ex_heap)) \<and>
   prepare (chk_close True) ex_factory (Item 3)
       (accept 2 (\<lparr>global = 2, stack = [0], env = Some 0\<rparr>,
                  set_item_global 2 2 (set_item_global 4 2 ex_heap))) =
     Inr (3, Flag True,
          set_item_global 3 2
            (snd (accept 2 (\<lparr>global = 2, stack = [0], env = Some 0\<rparr>,
                            set_item_global 2 2 (set_item_global 4 2 ex_heap))))) \<and>
   stack ex_stack2 = [0, 1] \<and>
   map_option (stack \<circ> fst)
     (returned (Push 1 (chk_close True) ex_factory [Item 4] (ex_stack2, ex_heap))) =
     Some [0, 2, 3]"
proof -
  let ?h1 = "set_item_global 4 2 ex_heap"
  let ?s2 = "\<lparr>global = 2, stack = [0], env = Some 0\<rparr>"
  let ?h3 = "set_item_global 2 2 ?h1"
  let ?h4 = "set_item_global 3 2 (snd (accept 2 (?s2, ?h3)))"
  have p1: "prepare (chk_close True) ex_factory (Item 4) (ex_stack2, ex_heap) =
      Inr (4, ReplaceList [Item 2, Item 3], ?h1)"
    by (simp add: prepare_Item chk_close_def ex_stack2_def)
  have p2: "Pop (ex_stack2, ?h1) = Inr (1, ?s2, ?h1)"
    by (simp add: Pop_def Let_def Top_def js_index_def set_item_global_def ex_stack2_def
        ex_heap_def ex_items_def)
  have p3: "prepare (chk_close True) ex_factory (Item 2) (?s2, ?h1) = Inr (2, Flag True, ?h3)"
    by (simp add: prepare_Item chk_close_def)
  have p4: "prepare (chk_close True) ex_factory (Item 3) (accept 2 (?s2, ?h3)) = Inr (3, Flag True, ?h4)"
    by (cases "accept 2 (?s2, ?h3)")
       (use accept_stack [of 2 ?s2 ?h3] accept_global [of 2 ?s2 ?h3] in
         \<open>simp add: prepare_Item chk_close_def\<close>)
  from Push_replacement_list_order [OF p1 p2 p3 p4, of 0] p1 p2 p3 p4 show ?thesis
    by (simp add: returned_def ex_stack2_def)
qed

text \<open>
  The claim as the specification states it fails when the items below do not accept:
  item 1, on top of item 0, answers candidate 4 with the list of the items 2 and 3, and
  every other check returns \<open>false\<close>. Item 1 is popped, item 0 rejects item 2 and then
  item 3, and the call ends with item 0 alone on the stack.
\<close>

theorem Push_replacement_list_rejected_counterexample:
  "prepare (chk_close False) ex_factory (Item 4) (ex_stack2, ex_heap) =
     Inr (4, ReplaceList [Item 2, Item 3], set_item_global 4 2 ex_heap) \<and>
   stack ex_stack2 = [0, 1] \<and>
   map_option (stack \<circ> fst)
     (returned (Push 1 (chk_close False) ex_factory [Item 4] (ex_stack2, ex_heap))) = Some [0] \<and>
   map_option (stack \<circ> fst)
     (returned (Push 1 (chk_close False) ex_factory [Item 4] (ex_stack2, ex_heap))) \<noteq> Some [0, 2, 3]"
  by (simp add: prepare_Item Pop_def Let_def Top_def js_index_def returned_def chk_close_def
      set_item_global_def ex_stack2_def ex_heap_def ex_items_def)

subsection \<open>Invariants along Push\<close>

lemma prepare_props:
  assumes p: "prepare chk fac node (s, h) = Inr (i, r, h')"
    and chk: "chk_ok chk" and fac: "fac_ok fac" and arg: "arg_ok h node"
  shows "i < next_item h'"
    and "next_item h \<le> next_item h'"
    and "answer_ok h' r"
    and "item_global (items h' i) = Some (global s)"
    and "\<forall>a<next_item h. item_env (items h' a) = item_env (items h a)"
    and "\<forall>a<next_item h. a \<noteq> i \<longrightarrow> item_global (items h' a) = item_global (items h a)"
proof -
  from p obtain h1 where
    w: "(node = Item i \<and> h1 = h) \<or> (\<exists>nd. node = Node nd \<and> fac ''mml'' (NodeArg nd) h = Inr (i, h1))"
    and c: "(stack s = [] \<and> r = Flag True \<and> h' = set_item_global i (global s) h1) \<or>
     (stack s \<noteq> [] \<and> chk (set_item_global i (global s) h1) (last (stack s)) i = Inr (r, h'))"
    by (rule prepare_InrE)
  let ?h2 = "set_item_global i (global s) h1"
  from w arg fac have 1: "preserves h h1 \<and> i < next_item h1"
    by (auto simp: fac_ok_def preserves_def arg_ok_def)
  have 2: "next_item ?h2 = next_item h1" "item_global (items ?h2 i) = Some (global s)"
    "\<forall>a. item_env (items ?h2 a) = item_env (items h1 a)"
    "\<forall>a. a \<noteq> i \<longrightarrow> item_global (items ?h2 a) = item_global (items h1 a)"
    by (simp_all add: set_item_global_def)
  from c chk have 3: "preserves ?h2 h' \<and> answer_ok h' r"
    by (auto simp: chk_ok_def preserves_def answer_ok_def)
  from 1 2 3 show "i < next_item h'" "next_item h \<le> next_item h'" "answer_ok h' r"
    "item_global (items h' i) = Some (global s)"
    by (auto simp: preserves_def)
  from 1 2 3 show "\<forall>a<next_item h. item_env (items h' a) = item_env (items h a)"
    by (auto simp: preserves_def)
  from 1 2 3 show "\<forall>a<next_item h. a \<noteq> i \<longrightarrow> item_global (items h' a) = item_global (items h a)"
    by (auto simp: preserves_def)
qed

lemma list_all_arg_ok_mono:
  "list_all (arg_ok h) xs \<Longrightarrow> next_item h \<le> next_item h' \<Longrightarrow> list_all (arg_ok h') xs"
  by (auto simp: list_all_iff arg_ok_def split: arg.splits)

text \<open>The state in which \<open>Push\<close> goes on after the check, for each kind of answer.\<close>

lemma prepare_keeps_invariants:
  assumes p: "prepare chk fac node (s, h) = Inr (i, r, h')"
    and chk: "chk_ok chk" and fac: "fac_ok fac" and arg: "arg_ok h node"
    and al: "allocated (s, h)"
  shows "allocated (s, h')"
    and "env_inv (s, h) \<Longrightarrow> stack s \<noteq> [] \<Longrightarrow> env_inv (s, h')"
    and "global_inv (s, h) \<Longrightarrow> global_inv (s, h')"
proof -
  note pp = prepare_props [OF p chk fac arg]
  from al pp(2) show "allocated (s, h')"
    by (auto simp: allocated_def)
  show "env_inv (s, h')" if "env_inv (s, h)" "stack s \<noteq> []"
  proof -
    from that(2) al have "last (stack s) < next_item h"
      by (simp add: allocated_def)
    with pp(5) that show ?thesis
      by (simp add: env_inv_def)
  qed
  show "global_inv (s, h')" if "global_inv (s, h)"
    unfolding global_inv_def
  proof (clarsimp)
    fix a assume a: "a \<in> set (stack s)"
    with al have "a < next_item h"
      by (simp add: allocated_def)
    with pp(4,6) that a show "item_global (items h' a) = Some (global s)"
      by (cases "a = i") (auto simp: global_inv_def)
  qed
qed

lemma accept_keeps_invariants:
  assumes "allocated (s, h)" and "i < next_item h"
  shows "allocated (accept i (s, h))"
    and "env_inv (accept i (s, h))"
    and "global_inv (s, h) \<Longrightarrow> item_global (items h i) = Some (global s) \<Longrightarrow>
         global_inv (accept i (s, h))"
proof -
  obtain s' h' where a: "accept i (s, h) = (s', h')"
    by (cases "accept i (s, h)")
  from a have f: "stack s' = stack s @ [i]" "global s' = global s" "next_item h' = next_item h"
    "\<forall>a. item_global (items h' a) = item_global (items h a)"
    "env s' = item_env (items h' i)"
    using accept_stack [of i s h] accept_global [of i s h] accept_next_item [of i s h]
      accept_item_global [of i s h] accept_env_is_top_env [of i s h]
    by simp_all
  from assms f show "allocated (accept i (s, h))"
    by (auto simp: a allocated_def)
  from f show "env_inv (accept i (s, h))"
    by (simp add: a env_inv_def)
  show "global_inv (accept i (s, h))"
    if "global_inv (s, h)" "item_global (items h i) = Some (global s)"
    using that f by (auto simp: a global_inv_def)
qed

lemma Pop_keeps_invariants:
  assumes "Pop (s, h) = Inr (i, s', h')"
  shows "allocated (s, h) \<Longrightarrow> allocated (s', h')"
    and "global_inv (s, h) \<Longrightarrow> global_inv (s', h')"
  using Pop_Inr_stack [OF assms] Pop_Inr_heap [OF assms]
  by (auto simp: allocated_def global_inv_def dest: in_set_butlastD)

lemma Push_keeps_invariants:
  "Push n chk fac args sh = Some (Inr sh') \<Longrightarrow> chk_ok chk \<Longrightarrow> fac_ok fac \<Longrightarrow>
   allocated sh \<Longrightarrow> list_all (arg_ok (snd sh)) args \<Longrightarrow>
   allocated sh' \<and> next_item (snd sh) \<le> next_item (snd sh') \<and>
   global (fst sh') = global (fst sh) \<and>
   (env_inv sh \<longrightarrow> env_inv sh') \<and> (global_inv sh \<longrightarrow> global_inv sh')"
proof (induction n chk fac args sh arbitrary: sh' rule: Push.induct)
  case (1 n chk fac sh)
  then show ?case by simp
next
  case (2 n chk fac node args sh)
  obtain s h where sh: "sh = (s, h)"
    by (cases sh)
  note chk = \<open>chk_ok chk\<close> and fac = \<open>fac_ok fac\<close>
  from "2.prems" have al: "allocated (s, h)"
    and ok: "arg_ok h node" "list_all (arg_ok h) args"
    by (simp_all add: sh)
  show ?case
  proof (cases "node = Null")
    case True
    with "2.prems" have "Push n chk fac args sh = Some (Inr sh')"
      by simp
    from "2.IH"(1) [OF True this chk fac] "2.prems" show ?thesis
      by simp
  next
    case False
    with "2.prems"(1) obtain i r h1 where p: "prepare chk fac node sh = Inr (i, r, h1)"
      by (auto split: sum.splits)
    note pp = prepare_props [OF p [unfolded sh] chk fac ok(1)]
    note pk = prepare_keeps_invariants [OF p [unfolded sh] chk fac ok(1) al]
    have args1: "list_all (arg_ok h1) args"
      using ok(2) pp(2) by (rule list_all_arg_ok_mono)
    have replace: ?thesis
      if xs: "list_all (arg_ok h1) xs"
        and run: "Push n chk fac (node # args) sh =
          (case Pop (s, h1) of
             Inl e \<Rightarrow> Some (Inl e)
           | Inr (popped, sh1) \<Rightarrow>
               (case n of
                  0 \<Rightarrow> None
                | Suc m \<Rightarrow>
                    (case Push m chk fac xs sh1 of
                       None \<Rightarrow> None
                     | Some (Inl e) \<Rightarrow> Some (Inl e)
                     | Some (Inr sh2) \<Rightarrow> Push n chk fac args sh2)))"
        and ih1: "\<And>t sh1 m sh2. Pop (s, h1) = Inr (t, sh1) \<Longrightarrow> n = Suc m \<Longrightarrow>
            Push m chk fac xs sh1 = Some (Inr sh2) \<Longrightarrow> allocated sh1 \<Longrightarrow>
            list_all (arg_ok (snd sh1)) xs \<Longrightarrow>
            allocated sh2 \<and> next_item (snd sh1) \<le> next_item (snd sh2) \<and>
            global (fst sh2) = global (fst sh1) \<and>
            (env_inv sh1 \<longrightarrow> env_inv sh2) \<and> (global_inv sh1 \<longrightarrow> global_inv sh2)"
        and ih2: "\<And>t sh1 m sh2. Pop (s, h1) = Inr (t, sh1) \<Longrightarrow> n = Suc m \<Longrightarrow>
            Push m chk fac xs sh1 = Some (Inr sh2) \<Longrightarrow> allocated sh2 \<Longrightarrow>
            list_all (arg_ok (snd sh2)) args \<Longrightarrow>
            allocated sh' \<and> next_item (snd sh2) \<le> next_item (snd sh') \<and>
            global (fst sh') = global (fst sh2) \<and>
            (env_inv sh2 \<longrightarrow> env_inv sh') \<and> (global_inv sh2 \<longrightarrow> global_inv sh')"
      for xs
    proof -
      from run "2.prems"(1) obtain t s1 hp m sh2 where
        pop: "Pop (s, h1) = Inr (t, s1, hp)" and n: "n = Suc m"
        and inner: "Push m chk fac xs (s1, hp) = Some (Inr sh2)"
        and outer: "Push n chk fac args sh2 = Some (Inr sh')"
        by (auto split: sum.splits nat.splits option.splits)
      note ps = Pop_Inr_stack [OF pop] and ph = Pop_Inr_heap [OF pop]
      have 1: "allocated (s1, hp)" "env_inv (s1, hp)"
        and 2: "global_inv (s, h) \<Longrightarrow> global_inv (s1, hp)"
        using Pop_keeps_invariants [OF pop] Pop_env_inv [OF pop] pk by blast+
      from xs ph have "list_all (arg_ok (snd (s1, hp))) xs"
        by (auto intro: list_all_arg_ok_mono)
      from ih1 [OF pop n inner 1(1) this] 1(2)
      have 3: "allocated sh2" "next_item hp \<le> next_item (snd sh2)"
        "global (fst sh2) = global s1" "env_inv sh2"
        "global_inv (s1, hp) \<Longrightarrow> global_inv sh2"
        by simp_all
      from args1 ph 3(2) have "list_all (arg_ok (snd sh2)) args"
        by (auto intro: list_all_arg_ok_mono)
      from ih2 [OF pop n inner 3(1) this] 2 3 ps ph pp(2) show ?thesis
        by (auto simp: sh)
    qed
    show ?thesis
    proof (cases r)
      case (Flag b)
      show ?thesis
      proof (cases b)
        case True
        let ?a = "accept i (s, h1)"
        from "2.prems"(1) False p Flag True have run: "Push n chk fac args ?a = Some (Inr sh')"
          by (simp add: sh)
        note ak = accept_keeps_invariants [OF pk(1) pp(1)]
        have "list_all (arg_ok (snd ?a)) args"
          using args1 by (auto intro: list_all_arg_ok_mono)
        from "2.IH"(2) [OF False p refl refl Flag True, of sh'] run chk fac ak(1) this
        have "allocated sh' \<and> next_item (snd ?a) \<le> next_item (snd sh') \<and>
          global (fst sh') = global (fst ?a) \<and>
          (env_inv ?a \<longrightarrow> env_inv sh') \<and> (global_inv ?a \<longrightarrow> global_inv sh')"
          by (simp add: sh)
        with ak pk(3) pp(2,4) show ?thesis
          by (auto simp: sh)
      next
        case False
        from "2.prems"(1) \<open>node \<noteq> Null\<close> p Flag False
        have run: "Push n chk fac args (s, h1) = Some (Inr sh')"
          by (simp add: sh)
        from p Flag False have ne: "stack s \<noteq> []"
          using prepare_empty_accepts [of chk fac node s h i r h1] by (auto simp: sh)
        from "2.IH"(3) [OF \<open>node \<noteq> Null\<close> p refl refl Flag False, of sh'] run chk fac pk(1) args1
        have "allocated sh' \<and> next_item h1 \<le> next_item (snd sh') \<and>
          global (fst sh') = global s \<and>
          (env_inv (s, h1) \<longrightarrow> env_inv sh') \<and> (global_inv (s, h1) \<longrightarrow> global_inv sh')"
          by (simp add: sh)
        with pk ne pp(2) show ?thesis
          by (auto simp: sh)
      qed
    next
      case (Replace x)
      from pp(3) Replace have "list_all (arg_ok h1) [Item x]"
        by (simp add: answer_ok_def arg_ok_def)
      then show ?thesis
      proof (rule replace)
        show "Push n chk fac (node # args) sh =
          (case Pop (s, h1) of
             Inl e \<Rightarrow> Some (Inl e)
           | Inr (popped, sh1) \<Rightarrow>
               (case n of
                  0 \<Rightarrow> None
                | Suc m \<Rightarrow>
                    (case Push m chk fac [Item x] sh1 of
                       None \<Rightarrow> None
                     | Some (Inl e) \<Rightarrow> Some (Inl e)
                     | Some (Inr sh2) \<Rightarrow> Push n chk fac args sh2)))"
          using False p Replace by (simp add: sh)
      next
        fix t sh1 m sh2
        assume a: "Pop (s, h1) = Inr (t, sh1)" "n = Suc m"
          "Push m chk fac [Item x] sh1 = Some (Inr sh2)"
        from a(1) have a': "Pop (fst sh, h1) = Inr (t, sh1)"
          by (simp add: sh)
        show "allocated sh1 \<Longrightarrow> list_all (arg_ok (snd sh1)) [Item x] \<Longrightarrow>
            allocated sh2 \<and> next_item (snd sh1) \<le> next_item (snd sh2) \<and>
            global (fst sh2) = global (fst sh1) \<and>
            (env_inv sh1 \<longrightarrow> env_inv sh2) \<and> (global_inv sh1 \<longrightarrow> global_inv sh2)"
          using "2.IH"(4) [OF False p refl refl Replace a' refl a(2) a(3) chk fac] by blast
        show "allocated sh2 \<Longrightarrow> list_all (arg_ok (snd sh2)) args \<Longrightarrow>
            allocated sh' \<and> next_item (snd sh2) \<le> next_item (snd sh') \<and>
            global (fst sh') = global (fst sh2) \<and>
            (env_inv sh2 \<longrightarrow> env_inv sh') \<and> (global_inv sh2 \<longrightarrow> global_inv sh')"
          using "2.IH"(5) [OF False p refl refl Replace a' refl a(2) a(3) refl, of sh']
            "2.prems"(1) False p Replace a chk fac
          by (simp add: sh)
      qed
    next
      case (ReplaceList xs)
      from pp(3) ReplaceList have "list_all (arg_ok h1) xs"
        by (simp add: answer_ok_def)
      then show ?thesis
      proof (rule replace)
        show "Push n chk fac (node # args) sh =
          (case Pop (s, h1) of
             Inl e \<Rightarrow> Some (Inl e)
           | Inr (popped, sh1) \<Rightarrow>
               (case n of
                  0 \<Rightarrow> None
                | Suc m \<Rightarrow>
                    (case Push m chk fac xs sh1 of
                       None \<Rightarrow> None
                     | Some (Inl e) \<Rightarrow> Some (Inl e)
                     | Some (Inr sh2) \<Rightarrow> Push n chk fac args sh2)))"
          using False p ReplaceList by (simp add: sh)
      next
        fix t sh1 m sh2
        assume a: "Pop (s, h1) = Inr (t, sh1)" "n = Suc m"
          "Push m chk fac xs sh1 = Some (Inr sh2)"
        from a(1) have a': "Pop (fst sh, h1) = Inr (t, sh1)"
          by (simp add: sh)
        show "allocated sh1 \<Longrightarrow> list_all (arg_ok (snd sh1)) xs \<Longrightarrow>
            allocated sh2 \<and> next_item (snd sh1) \<le> next_item (snd sh2) \<and>
            global (fst sh2) = global (fst sh1) \<and>
            (env_inv sh1 \<longrightarrow> env_inv sh2) \<and> (global_inv sh1 \<longrightarrow> global_inv sh2)"
          using "2.IH"(6) [OF False p refl refl ReplaceList a' refl a(2) a(3) chk fac] by blast
        show "allocated sh2 \<Longrightarrow> list_all (arg_ok (snd sh2)) args \<Longrightarrow>
            allocated sh' \<and> next_item (snd sh2) \<le> next_item (snd sh') \<and>
            global (fst sh') = global (fst sh2) \<and>
            (env_inv sh2 \<longrightarrow> env_inv sh') \<and> (global_inv sh2 \<longrightarrow> global_inv sh')"
          using "2.IH"(7) [OF False p refl refl ReplaceList a' refl a(2) a(3) refl, of sh']
            "2.prems"(1) False p ReplaceList a chk fac
          by (simp add: sh)
      qed
    qed
  qed
qed

lemma Push_global:
  "Push n chk fac args sh = Some (Inr sh') \<Longrightarrow> global (fst sh') = global (fst sh)"
proof (induction n chk fac args sh arbitrary: sh' rule: Push.induct)
  case (1 n chk fac sh)
  then show ?case by simp
next
  case (2 n chk fac node args sh)
  obtain s h where sh: "sh = (s, h)"
    by (cases sh)
  show ?case
  proof (cases "node = Null")
    case True
    with "2.prems" "2.IH"(1) show ?thesis
      by simp
  next
    case False
    with "2.prems"(1) obtain i r h1 where p: "prepare chk fac node sh = Inr (i, r, h1)"
      by (auto split: sum.splits)
    show ?thesis
    proof (cases r)
      case (Flag b)
      with "2.prems" False p "2.IH"(2) [OF False p refl refl Flag, of sh']
        "2.IH"(3) [OF False p refl refl Flag, of sh'] show ?thesis
        by (cases b) (simp_all add: sh)
    next
      case (Replace x)
      with "2.prems" False p obtain t s1 hp m sh2 where
        pop: "Pop (fst sh, h1) = Inr (t, s1, hp)" and n: "n = Suc m"
        and inner: "Push m chk fac [Item x] (s1, hp) = Some (Inr sh2)"
        and outer: "Push n chk fac args sh2 = Some (Inr sh')"
        by (auto split: sum.splits nat.splits option.splits)
      from "2.IH"(4) [OF False p refl refl Replace pop refl n inner]
        "2.IH"(5) [OF False p refl refl Replace pop refl n inner refl outer]
        Pop_Inr_stack [OF pop [unfolded sh fst_conv]]
      show ?thesis
        by (simp add: sh)
    next
      case (ReplaceList xs)
      with "2.prems" False p obtain t s1 hp m sh2 where
        pop: "Pop (fst sh, h1) = Inr (t, s1, hp)" and n: "n = Suc m"
        and inner: "Push m chk fac xs (s1, hp) = Some (Inr sh2)"
        and outer: "Push n chk fac args sh2 = Some (Inr sh')"
        by (auto split: sum.splits nat.splits option.splits)
      from "2.IH"(6) [OF False p refl refl ReplaceList pop refl n inner]
        "2.IH"(7) [OF False p refl refl ReplaceList pop refl n inner refl outer]
        Pop_Inr_stack [OF pop [unfolded sh fst_conv]]
      show ?thesis
        by (simp add: sh)
    qed
  qed
qed

lemma prepare_global_guard:
  "prepare (global_guard (global s) chk) fac node (s, h) = prepare chk fac node (s, h)"
  by (simp add: prepare_def global_guard_def set_item_global_def Let_def
      split: arg.splits sum.splits option.splits)

lemma Push_global_guard:
  "Push n (global_guard (global (fst sh)) chk) fac args sh = Push n chk fac args sh"
proof (induction n chk fac args sh rule: Push.induct)
  case (1 n chk fac sh)
  show ?case by simp
next
  case (2 n chk fac node args sh)
  obtain s h where sh: "sh = (s, h)"
    by (cases sh)
  let ?G = "global_guard (global s) chk"
  have pg: "prepare ?G fac node (s, h) = prepare chk fac node (s, h)"
    by (rule prepare_global_guard)
  show ?case
  proof (cases "node = Null")
    case True
    with "2.IH"(1) show ?thesis
      by simp
  next
    case False
    show ?thesis
    proof (cases "prepare chk fac node sh")
      case (Inl e)
      with False pg show ?thesis
        by (simp add: sh)
    next
      case (Inr b)
      obtain i r h1 where b: "b = (i, r, h1)"
        by (cases b)
      note p = Inr [unfolded b]
      have replace: ?thesis
        if run: "\<And>c. c = chk \<or> c = ?G \<Longrightarrow> Push n c fac (node # args) sh =
               (case Pop (s, h1) of
                 Inl e \<Rightarrow> Some (Inl e)
               | Inr (popped, sh1) \<Rightarrow>
                   (case n of
                      0 \<Rightarrow> None
                    | Suc m \<Rightarrow>
                        (case Push m c fac xs sh1 of
                           None \<Rightarrow> None
                         | Some (Inl e) \<Rightarrow> Some (Inl e)
                         | Some (Inr sh2) \<Rightarrow> Push n c fac args sh2)))"
          and ih1: "\<And>t sh1 m. Pop (s, h1) = Inr (t, sh1) \<Longrightarrow> n = Suc m \<Longrightarrow>
            Push m (global_guard (global (fst sh1)) chk) fac xs sh1 = Push m chk fac xs sh1"
          and ih2: "\<And>t sh1 m sh2. Pop (s, h1) = Inr (t, sh1) \<Longrightarrow> n = Suc m \<Longrightarrow>
            Push m chk fac xs sh1 = Some (Inr sh2) \<Longrightarrow>
            Push n (global_guard (global (fst sh2)) chk) fac args sh2 = Push n chk fac args sh2"
        for xs
      proof (cases "Pop (s, h1)")
        case (Inl e)
        with run [of chk] run [of ?G] show ?thesis
          by (simp add: sh)
      next
        case pop: (Inr c)
        obtain t s1 hp where c: "c = (t, s1, hp)"
          by (cases c)
        note pop = pop [unfolded c]
        from Pop_Inr_stack [OF pop] have g1: "global s1 = global s"
          by simp
        show ?thesis
        proof (cases n)
          case 0
          with run [of chk] run [of ?G] pop show ?thesis
            by (simp add: sh)
        next
          case (Suc m)
          from ih1 [OF pop Suc] g1
          have inner: "Push m ?G fac xs (s1, hp) = Push m chk fac xs (s1, hp)"
            by simp
          show ?thesis
          proof (cases "Push m chk fac xs (s1, hp)")
            case None
            with run [of chk] run [of ?G] pop Suc inner show ?thesis
              by (simp add: sh)
          next
            case (Some res)
            show ?thesis
            proof (cases res)
              case (Inl e)
              with run [of chk] run [of ?G] pop Suc inner Some show ?thesis
                by (simp add: sh)
            next
              case (Inr sh2)
              from Some Inr have i2: "Push m chk fac xs (s1, hp) = Some (Inr sh2)"
                by simp
              from Push_global [OF i2] g1 have "global (fst sh2) = global s"
                by simp
              with ih2 [OF pop Suc i2]
              have "Push n ?G fac args sh2 = Push n chk fac args sh2"
                by simp
              with run [of chk] run [of ?G] pop Suc inner i2 show ?thesis
                by (simp add: sh)
            qed
          qed
        qed
      qed
      show ?thesis
      proof (cases r)
        case (Flag f)
        with False p pg "2.IH"(2) [OF False p refl refl Flag] "2.IH"(3) [OF False p refl refl Flag]
        show ?thesis
          by (cases f) (simp_all add: sh)
      next
        case (Replace x)
        show ?thesis
        proof (rule replace)
          fix c
          assume "c = chk \<or> c = ?G"
          with False p pg Replace show "Push n c fac (node # args) sh =
               (case Pop (s, h1) of
                 Inl e \<Rightarrow> Some (Inl e)
               | Inr (popped, sh1) \<Rightarrow>
                   (case n of
                      0 \<Rightarrow> None
                    | Suc m \<Rightarrow>
                        (case Push m c fac [Item x] sh1 of
                           None \<Rightarrow> None
                         | Some (Inl e) \<Rightarrow> Some (Inl e)
                         | Some (Inr sh2) \<Rightarrow> Push n c fac args sh2)))"
            by (auto simp: sh)
        next
          fix t sh1 m
          assume a: "Pop (s, h1) = Inr (t, sh1)" "n = Suc m"
          from a(1) have a': "Pop (fst sh, h1) = Inr (t, sh1)"
            by (simp add: sh)
          show "Push m (global_guard (global (fst sh1)) chk) fac [Item x] sh1 =
              Push m chk fac [Item x] sh1"
            by (rule "2.IH"(4) [OF False p refl refl Replace a' refl a(2)])
          show "Push n (global_guard (global (fst sh2)) chk) fac args sh2 = Push n chk fac args sh2"
            if "Push m chk fac [Item x] sh1 = Some (Inr sh2)" for sh2
            by (rule "2.IH"(5) [OF False p refl refl Replace a' refl a(2) that refl])
        qed
      next
        case (ReplaceList xs)
        show ?thesis
        proof (rule replace)
          fix c
          assume "c = chk \<or> c = ?G"
          with False p pg ReplaceList show "Push n c fac (node # args) sh =
               (case Pop (s, h1) of
                 Inl e \<Rightarrow> Some (Inl e)
               | Inr (popped, sh1) \<Rightarrow>
                   (case n of
                      0 \<Rightarrow> None
                    | Suc m \<Rightarrow>
                        (case Push m c fac xs sh1 of
                           None \<Rightarrow> None
                         | Some (Inl e) \<Rightarrow> Some (Inl e)
                         | Some (Inr sh2) \<Rightarrow> Push n c fac args sh2)))"
            by (auto simp: sh)
        next
          fix t sh1 m
          assume a: "Pop (s, h1) = Inr (t, sh1)" "n = Suc m"
          from a(1) have a': "Pop (fst sh, h1) = Inr (t, sh1)"
            by (simp add: sh)
          show "Push m (global_guard (global (fst sh1)) chk) fac xs sh1 = Push m chk fac xs sh1"
            by (rule "2.IH"(6) [OF False p refl refl ReplaceList a' refl a(2)])
          show "Push n (global_guard (global (fst sh2)) chk) fac args sh2 = Push n chk fac args sh2"
            if "Push m chk fac xs sh1 = Some (Inr sh2)" for sh2
            by (rule "2.IH"(7) [OF False p refl refl ReplaceList a' refl a(2) that refl])
        qed
      qed
    qed
  qed
qed

lemma Stack_new_env_inv: "Stack_new fac env0 inner h = Inr sh \<Longrightarrow> env_inv sh"
  by (auto simp: Stack_new_def new_env_def env_inv_def Let_def split: sum.splits prod.splits)

lemma list_all_op_ok_mono:
  "list_all (op_ok h) ops \<Longrightarrow> next_item h \<le> next_item h' \<Longrightarrow> list_all (op_ok h') ops"
  by (induction ops) (auto simp: op_ok_def split: op.splits intro: list_all_arg_ok_mono)

lemma run_keeps_global_inv:
  "run n chk fac ops sh = Some (Inr sh') \<Longrightarrow> chk_ok chk \<Longrightarrow> fac_ok fac \<Longrightarrow>
   allocated sh \<Longrightarrow> list_all (op_ok (snd sh)) ops \<Longrightarrow> global_inv sh \<Longrightarrow>
   global_inv sh' \<and> global (fst sh') = global (fst sh)"
proof (induction ops arbitrary: sh)
  case Nil
  then show ?case by simp
next
  case (Cons x ops)
  show ?case
  proof (cases x)
    case (DoPush args)
    with Cons.prems(1) obtain sh1 where
      push: "Push n chk fac args sh = Some (Inr sh1)" and rest: "run n chk fac ops sh1 = Some (Inr sh')"
      by (auto split: option.splits sum.splits)
    from Cons.prems(5) DoPush have "list_all (arg_ok (snd sh)) args"
      by (simp add: op_ok_def)
    from Push_keeps_invariants [OF push Cons.prems(2,3,4) this] Cons.prems(6)
    have 1: "allocated sh1" "next_item (snd sh) \<le> next_item (snd sh1)"
      "global (fst sh1) = global (fst sh)" "global_inv sh1"
      by simp_all
    from Cons.prems(5) 1(2) have "list_all (op_ok (snd sh1)) ops"
      by (auto intro: list_all_op_ok_mono)
    from Cons.IH [OF rest Cons.prems(2,3) 1(1) this 1(4)] 1(3) show ?thesis
      by simp
  next
    case DoPop
    with Cons.prems(1) obtain i s1 h1 where
      pop: "Pop sh = Inr (i, s1, h1)" and rest: "run n chk fac ops (s1, h1) = Some (Inr sh')"
      by (auto split: sum.splits)
    obtain s h where sh: "sh = (s, h)"
      by (cases sh)
    note pop' = pop [unfolded sh]
    from Pop_keeps_invariants [OF pop'] Cons.prems(4,6)
    have 1: "allocated (s1, h1)" "global_inv (s1, h1)"
      by (simp_all add: sh)
    from Cons.prems(5) Pop_Inr_heap [OF pop'] have "list_all (op_ok (snd (s1, h1))) ops"
      by (auto intro: list_all_op_ok_mono simp: sh)
    from Cons.IH [OF rest Cons.prems(2,3) 1(1) this 1(2)] Pop_Inr_stack [OF pop'] show ?thesis
      by (simp add: sh)
  qed
qed

lemma returned_Some: "returned r = Some x \<longleftrightarrow> r = Some (Inr x)"
  by (simp add: returned_def split: option.splits sum.splits)

subsection \<open>The sample collaborators keep to what is assumed of them\<close>

lemma chk_accept_ok: "chk_ok chk_accept"
  by (simp add: chk_ok_def chk_accept_def preserves_def answer_ok_def)

lemma chk_base_ok: "chk_ok chk_base"
  by (auto simp: chk_ok_def chk_base_def preserves_def answer_ok_def arg_ok_def split: if_splits)

lemma ex_factory_ok: "fac_ok ex_factory"
  by (auto simp: fac_ok_def ex_factory_def preserves_def new_env_def
           split: if_splits create_arg.splits)

subsection \<open>The current environment is the top item's\<close>

text \<open>
  Claim C4. The current environment is the \<open>env\<close> of the top item when the stack has
  an item, and an empty record when it has none: this holds of the state the constructor
  returns, of the state \<open>Pop\<close> returns, and of the state \<open>Push\<close> returns when it held
  before the call. For \<open>Push\<close> the items involved are allocated and the collaborators
  (the factory and \<open>checkItem\<close>) leave the \<open>env\<close> and \<open>global\<close> properties of existing
  items alone.
\<close>

theorem current_env_is_top_env:
  "(Stack_new fac0 env0 inner h0 = Inr sh0 \<longrightarrow> env_inv sh0) \<and>
   (chk_ok chk \<and> fac_ok fac \<and> allocated sh \<and> list_all (arg_ok (snd sh)) args \<and>
    env_inv sh \<and> Push n chk fac args sh = Some (Inr sh') \<longrightarrow> env_inv sh') \<and>
   (Pop sh2 = Inr (i, sh3) \<longrightarrow> env_inv sh3)"
proof (intro conjI impI)
  show "env_inv sh0" if "Stack_new fac0 env0 inner h0 = Inr sh0"
    using that by (rule Stack_new_env_inv)
  show "env_inv sh'"
    if "chk_ok chk \<and> fac_ok fac \<and> allocated sh \<and> list_all (arg_ok (snd sh)) args \<and>
      env_inv sh \<and> Push n chk fac args sh = Some (Inr sh')"
    using that Push_keeps_invariants [of n chk fac args sh sh'] by blast
  show "env_inv sh3" if "Pop sh2 = Inr (i, sh3)"
    using that Pop_env_inv [of "fst sh2" "snd sh2" i "fst sh3" "snd sh3"] by simp
qed

theorem current_env_is_top_env_witness:
  "chk_ok chk_base \<and> fac_ok ex_factory \<and> allocated (ex_stack, ex_heap) \<and>
   list_all (arg_ok ex_heap) [Item 1, Null, Node 7, Item 4] \<and>
   env_inv (ex_stack, ex_heap) \<and>
   map_option (stack \<circ> fst)
     (returned (Push 1 chk_base ex_factory [Item 1, Null, Node 7, Item 4] (ex_stack, ex_heap))) =
     Some [0] \<and>
   map_option env_inv
     (returned (Push 1 chk_base ex_factory [Item 1, Null, Node 7, Item 4] (ex_stack, ex_heap))) =
     Some True \<and>
   map_option (stack \<circ> fst) (returned (Some (Stack_new ex_factory (Some 0) False ex_heap))) =
     Some [5] \<and>
   map_option env_inv (returned (Some (Stack_new ex_factory (Some 0) False ex_heap))) =
     Some True \<and>
   map_option (stack \<circ> fst \<circ> snd) (returned (Some (Pop (ex_stack2, ex_heap)))) = Some [0] \<and>
   map_option (env_inv \<circ> snd) (returned (Some (Pop (ex_stack2, ex_heap)))) = Some True"
proof -
  let ?args = "[Item 1, Null, Node 7, Item 4]"
  have hyps: "allocated (ex_stack, ex_heap)" "list_all (arg_ok ex_heap) ?args"
    "env_inv (ex_stack, ex_heap)"
    by (simp_all add: allocated_def arg_ok_def env_inv_def ex_stack_def ex_heap_def ex_items_def)
  have run: "map_option (stack \<circ> fst)
     (returned (Push 1 chk_base ex_factory ?args (ex_stack, ex_heap))) = Some [0]"
    by (simp add: prepare_def Pop_def accept_def Let_def Top_def js_index_def returned_def
        chk_base_def ex_factory_def new_env_def set_item_global_def set_item_env_def env_get_def
        ex_stack_def ex_heap_def ex_items_def)
  then obtain sh' where
    push: "Push 1 chk_base ex_factory ?args (ex_stack, ex_heap) = Some (Inr sh')"
    by (auto simp: returned_def split: option.splits sum.splits)
  have new: "map_option (stack \<circ> fst)
      (returned (Some (Stack_new ex_factory (Some 0) False ex_heap))) = Some [5]"
    by (simp add: Stack_new_def Let_def returned_def ex_factory_def new_env_def
        set_item_env_def ex_heap_def ex_items_def)
  then obtain sh0 where
    sh0: "Stack_new ex_factory (Some 0) False ex_heap = Inr sh0"
    by (auto simp: returned_def split: sum.splits)
  have pop: "map_option (stack \<circ> fst \<circ> snd) (returned (Some (Pop (ex_stack2, ex_heap)))) =
      Some [0]"
    by (simp add: Pop_def Let_def Top_def js_index_def returned_def ex_stack2_def
        ex_heap_def ex_items_def)
  then obtain i sh3 where
    sh3: "Pop (ex_stack2, ex_heap) = Inr (i, sh3)"
    by (auto simp: returned_def split: sum.splits)
  from current_env_is_top_env
    [of ex_factory "Some 0" False ex_heap sh0 chk_base ex_factory "(ex_stack, ex_heap)"
        ?args 1 sh' "(ex_stack2, ex_heap)" i sh3]
    chk_base_ok ex_factory_ok hyps push sh0 sh3
  have "env_inv sh0" "env_inv sh'" "env_inv sh3"
    by (simp_all del: Push.simps)
  with chk_base_ok ex_factory_ok hyps run new pop push sh0 sh3 show ?thesis
    by (auto simp: returned_def simp del: Push.simps)
qed

subsection \<open>The global record of the items on the stack\<close>

text \<open>
  Claim C5. When every item on the stack has the stack's global record as its \<open>global\<close>,
  this is still so after any sequence of \<open>Push\<close> and \<open>Pop\<close> calls that returns, and
  the stack's global record is the same object throughout (the items pushed are
  allocated, and the collaborators leave the \<open>env\<close> and \<open>global\<close> properties of
  existing items alone). \<open>Push\<close> assigns the stack's global record to every item it
  processes before the check runs: a \<open>checkItem\<close> that fails on any candidate whose
  \<open>global\<close> is not the stack's global record gives the same result in every call.
\<close>

theorem global_record_identity:
  "(chk_ok chk \<and> fac_ok fac \<and> allocated sh \<and> list_all (op_ok (snd sh)) ops \<and>
    global_inv sh \<and> run n chk fac ops sh = Some (Inr sh') \<longrightarrow>
    global_inv sh' \<and> global (fst sh') = global (fst sh)) \<and>
   Push n chk fac args sh = Push n (global_guard (global (fst sh)) chk) fac args sh"
  using run_keeps_global_inv [of n chk fac ops sh sh'] Push_global_guard [of n sh chk fac args]
  by simp

theorem global_record_identity_witness:
  "chk_ok chk_base \<and> fac_ok ex_factory \<and> allocated (ex_stack, ex_heap) \<and>
   list_all (op_ok ex_heap) [DoPush [Item 1, Node 7], DoPop, DoPush [Item 4]] \<and>
   global_inv (ex_stack, ex_heap) \<and>
   map_option (stack \<circ> fst)
     (returned (run 1 chk_base ex_factory [DoPush [Item 1, Node 7], DoPop, DoPush [Item 4]]
        (ex_stack, ex_heap))) = Some [6] \<and>
   map_option global_inv
     (returned (run 1 chk_base ex_factory [DoPush [Item 1, Node 7], DoPop, DoPush [Item 4]]
        (ex_stack, ex_heap))) = Some True \<and>
   map_option (global \<circ> fst)
     (returned (run 1 chk_base ex_factory [DoPush [Item 1, Node 7], DoPop, DoPush [Item 4]]
        (ex_stack, ex_heap))) = Some (global ex_stack) \<and>
   Push 1 chk_base ex_factory [Item 1, Node 7] (ex_stack, ex_heap) =
     Push 1 (global_guard 2 chk_base) ex_factory [Item 1, Node 7] (ex_stack, ex_heap)"
proof -
  let ?ops = "[DoPush [Item 1, Node 7], DoPop, DoPush [Item 4]]"
  have hyps: "allocated (ex_stack, ex_heap)" "list_all (op_ok ex_heap) ?ops"
    "global_inv (ex_stack, ex_heap)"
    by (simp_all add: allocated_def op_ok_def arg_ok_def global_inv_def ex_stack_def ex_heap_def
        ex_items_def)
  have r: "map_option (stack \<circ> fst) (returned (run 1 chk_base ex_factory ?ops (ex_stack, ex_heap))) =
      Some [6]"
    by (simp add: prepare_def Pop_def accept_def Let_def Top_def js_index_def returned_def
        chk_base_def ex_factory_def new_env_def set_item_global_def set_item_env_def env_get_def
        ex_stack_def ex_heap_def ex_items_def)
  then obtain sh' where
    sh': "run 1 chk_base ex_factory ?ops (ex_stack, ex_heap) = Some (Inr sh')"
    by (auto simp: returned_def split: option.splits sum.splits)
  have g: "global (fst (ex_stack, ex_heap)) = 2"
    by (simp add: ex_stack_def)
  from global_record_identity
    [of chk_base ex_factory "(ex_stack, ex_heap)" ?ops 1 sh' "[Item 1, Node 7]"]
    chk_base_ok ex_factory_ok hyps sh' g
  have "global_inv sh'" "global (fst sh') = global ex_stack"
    "Push 1 chk_base ex_factory [Item 1, Node 7] (ex_stack, ex_heap) =
     Push 1 (global_guard 2 chk_base) ex_factory [Item 1, Node 7] (ex_stack, ex_heap)"
    by (simp_all del: Push.simps run.simps)
  with chk_base_ok ex_factory_ok hyps r sh' show ?thesis
    by (auto simp: returned_def simp del: Push.simps run.simps)
qed

subsection \<open>Pushes followed by as many pops\<close>

lemma run_append:
  "run n chk fac (ops1 @ ops2) sh =
     (case run n chk fac ops1 sh of
        None \<Rightarrow> None
      | Some (Inl e) \<Rightarrow> Some (Inl e)
      | Some (Inr sh1) \<Rightarrow> run n chk fac ops2 sh1)"
proof (induction ops1 arbitrary: sh)
  case Nil
  show ?case by simp
next
  case (Cons x ops1)
  then show ?case
    by (cases x) (simp_all split: option.splits sum.splits)
qed

lemma accepted_pushes:
  assumes "chk_ok chk" and "t < next_item h" and "t \<notin> set is"
    and "plainly_accepted chk fac is (s, h)" and "env_inv (s, h)"
  shows "\<exists>s1 h1. run n chk fac (map (\<lambda>i. DoPush [Item i]) is) (s, h) = Some (Inr (s1, h1)) \<and>
           stack s1 = stack s @ is \<and> env_inv (s1, h1) \<and>
           item_env (items h1 t) = item_env (items h t)"
  using assms(2-)
proof (induction "is" arbitrary: s h)
  case Nil
  then show ?case by simp
next
  case (Cons i "is")
  from Cons.prems(3) obtain h' where
    p: "prepare chk fac (Item i) (s, h) = Inr (i, Flag True, h')"
    and rest: "plainly_accepted chk fac is (accept i (s, h'))"
    by (auto simp: prepare_Item split: sum.splits if_splits)
  obtain s1 h1 where a: "accept i (s, h') = (s1, h1)"
    by (cases "accept i (s, h')")
  have chk: "preserves (set_item_global i (global s) h) h'"
    if "stack s \<noteq> []"
    using that p assms(1) by (auto simp: prepare_Item chk_ok_def split: sum.splits)
  have h': "next_item h \<le> next_item h'" "item_env (items h' t) = item_env (items h t)"
  proof -
    show "next_item h \<le> next_item h'"
      using chk p by (cases "stack s = []") (auto simp: prepare_Item preserves_def set_item_global_def)
    show "item_env (items h' t) = item_env (items h t)"
      using chk p Cons.prems(1)
      by (cases "stack s = []") (auto simp: prepare_Item preserves_def set_item_global_def)
  qed
  from a Cons.prems(2) have h1: "next_item h1 = next_item h'" "stack s1 = stack s @ [i]"
    "item_env (items h1 t) = item_env (items h' t)" "env_inv (s1, h1)"
    using accept_next_item [of i s h'] accept_stack [of i s h'] accept_item_env_other [of t i s h']
      accept_env_is_top_env [of i s h']
    by (auto simp: env_inv_def)
  from Cons.prems(1,2) h' h1 rest a
  have "\<exists>s2 h2. run n chk fac (map (\<lambda>i. DoPush [Item i]) is) (s1, h1) = Some (Inr (s2, h2)) \<and>
           stack s2 = stack s1 @ is \<and> env_inv (s2, h2) \<and>
           item_env (items h2 t) = item_env (items h1 t)"
    by (intro Cons.IH) auto
  with p a h' h1 show ?case
    by auto
qed

lemma pops_back:
  assumes "base \<noteq> []"
  shows "stack s = base @ is \<Longrightarrow> env_inv (s, h) \<Longrightarrow>
         \<exists>s' h'. run n chk fac (replicate (length is) DoPop) (s, h) = Some (Inr (s', h')) \<and>
           stack s' = base \<and> env_inv (s', h') \<and> (\<forall>a. a \<notin> set is \<longrightarrow> items h' a = items h a)"
proof (induction "is" arbitrary: s h rule: rev_induct)
  case Nil
  then show ?case by simp
next
  case (snoc i "is")
  from snoc.prems(1) have ne: "stack s \<noteq> []"
    by simp
  then obtain s1 h1 where pop: "Pop (s, h) = Inr (last (stack s), s1, h1)"
    using Pop_nonempty by blast
  from Pop_Inr_stack [OF pop] Pop_Inr_heap [OF pop] Pop_env_inv [OF pop] snoc.prems(1)
  have 1: "stack s1 = base @ is" "env_inv (s1, h1)" "\<forall>a. a \<noteq> i \<longrightarrow> items h1 a = items h a"
    by (simp_all add: butlast_append)
  from snoc.IH [OF 1(1,2)] obtain s' h' where
    "run n chk fac (replicate (length is) DoPop) (s1, h1) = Some (Inr (s', h'))"
    "stack s' = base" "env_inv (s', h')" "\<forall>a. a \<notin> set is \<longrightarrow> items h' a = items h1 a"
    by blast
  with pop 1(3) show ?case
    by auto
qed

text \<open>
  Claim C8, as the code has it. From a state whose stack has an item and whose current
  environment is the top item's \<open>env\<close>, any sequence of pushes of items other than that
  top item, all plainly accepted, followed by as many \<open>Pop\<close> calls, returns and leaves
  the item sequence it started from and the current environment pointer it started
  with. (The top item is allocated and the checks leave the \<open>env\<close> and \<open>global\<close>
  properties of existing items alone.)
\<close>

theorem push_pop_round_trip:
  assumes "stack s \<noteq> []" and "env_inv (s, h)"
    and "last (stack s) < next_item h" and "last (stack s) \<notin> set is"
    and "chk_ok chk" and "plainly_accepted chk fac is (s, h)"
  shows "\<exists>s' h'. run n chk fac (map (\<lambda>i. DoPush [Item i]) is @ replicate (length is) DoPop) (s, h) =
             Some (Inr (s', h')) \<and>
           stack s' = stack s \<and> env s' = env s"
proof -
  let ?t = "last (stack s)"
  from accepted_pushes [OF assms(5,3,4,6,2)] obtain s1 h1 where
    1: "run n chk fac (map (\<lambda>i. DoPush [Item i]) is) (s, h) = Some (Inr (s1, h1))"
    "stack s1 = stack s @ is" "env_inv (s1, h1)" "item_env (items h1 ?t) = item_env (items h ?t)"
    by blast
  from pops_back [OF assms(1) 1(2,3)] obtain s2 h2 where
    2: "run n chk fac (replicate (length is) DoPop) (s1, h1) = Some (Inr (s2, h2))"
    "stack s2 = stack s" "env_inv (s2, h2)" "\<forall>a. a \<notin> set is \<longrightarrow> items h2 a = items h1 a"
    by blast
  from 2(2,3) assms(1) have "env s2 = item_env (items h2 ?t)"
    by (simp add: env_inv_def)
  also from 2(4) assms(4) have "\<dots> = item_env (items h1 ?t)"
    by simp
  also from 1(4) assms(1,2) have "\<dots> = env s"
    by (simp add: env_inv_def)
  finally have "env s2 = env s" .
  with 1(1) 2(1,2) show ?thesis
    by (simp add: run_append)
qed

theorem push_pop_round_trip_witness:
  "stack ex_stack \<noteq> [] \<and> env_inv (ex_stack, ex_heap) \<and> last (stack ex_stack) < next_item ex_heap \<and>
   last (stack ex_stack) \<notin> set [1, 2] \<and> chk_ok chk_accept \<and>
   plainly_accepted chk_accept ex_factory [1, 2] (ex_stack, ex_heap) \<and>
   (\<exists>s' h'. run 0 chk_accept ex_factory [DoPush [Item 1], DoPush [Item 2], DoPop, DoPop]
        (ex_stack, ex_heap) = Some (Inr (s', h')) \<and>
      stack s' = stack ex_stack \<and> env s' = env ex_stack)"
proof -
  have 1: "stack ex_stack \<noteq> []" "env_inv (ex_stack, ex_heap)"
    "last (stack ex_stack) < next_item ex_heap" "last (stack ex_stack) \<notin> set [1, 2]"
    by (simp_all add: env_inv_def ex_stack_def ex_heap_def ex_items_def)
  have 2: "plainly_accepted chk_accept ex_factory [1, 2] (ex_stack, ex_heap)"
    by (simp add: prepare_Item accept_def Let_def chk_accept_def set_item_global_def
        ex_stack_def ex_heap_def ex_items_def)
  from push_pop_round_trip [OF 1 chk_accept_ok 2, of 0] 1 2 chk_accept_ok show ?thesis
    by (simp del: run.simps)
qed

text \<open>
  The claim as the specification states it, for every stack state, fails on the empty
  sample stack, whose current environment is the empty record 4: the push of item 1 is
  accepted, and the \<open>Pop\<close> that empties the stack again makes a new empty record, at
  address 5, the current environment. The depth is back at 0; the pointer is not the
  one before.
\<close>

theorem round_trip_from_empty_stack_counterexample:
  "stack ex_empty = [] \<and> env ex_empty = Some 4 \<and> envs ex_heap 4 = [] \<and>
   plainly_accepted chk_accept ex_factory [1] (ex_empty, ex_heap) \<and>
   map_option (stack \<circ> fst)
     (returned (run 0 chk_accept ex_factory [DoPush [Item 1], DoPop] (ex_empty, ex_heap))) =
     Some [] \<and>
   map_option (env \<circ> fst)
     (returned (run 0 chk_accept ex_factory [DoPush [Item 1], DoPop] (ex_empty, ex_heap))) =
     Some (Some 5) \<and>
   map_option (env \<circ> fst)
     (returned (run 0 chk_accept ex_factory [DoPush [Item 1], DoPop] (ex_empty, ex_heap))) \<noteq>
     Some (env ex_empty)"
  by (simp add: prepare_Item Pop_def accept_def Let_def Top_def js_index_def returned_def
      chk_accept_def new_env_def set_item_global_def set_item_env_def
      ex_empty_def ex_heap_def ex_items_def)

text \<open>
  The two further conditions of the round trip are needed as well. Pushing the closed
  item that is already on top and popping it again deletes that item's \<open>env\<close>, and the
  current environment ends absent; and when the current environment was not the top
  item's \<open>env\<close> at the start, the pop makes it so.
\<close>

lemma round_trip_top_item_pushed_again:
  "env_inv (ex_stack3, ex_heap) \<and> env ex_stack3 = Some 3 \<and>
   plainly_accepted chk_accept ex_factory [3] (ex_stack3, ex_heap) \<and>
   map_option (stack \<circ> fst)
     (returned (run 0 chk_accept ex_factory [DoPush [Item 3], DoPop] (ex_stack3, ex_heap))) =
     Some [0, 3] \<and>
   map_option (env \<circ> fst)
     (returned (run 0 chk_accept ex_factory [DoPush [Item 3], DoPop] (ex_stack3, ex_heap))) =
     Some None"
  by (simp add: prepare_Item Pop_def accept_def Let_def Top_def js_index_def returned_def
      chk_accept_def env_inv_def env_get_def set_item_global_def set_item_env_def
      ex_stack3_def ex_heap_def ex_items_def)

lemma round_trip_env_not_top_env:
  "\<not> env_inv (\<lparr>global = 2, stack = [0], env = Some 1\<rparr>, ex_heap) \<and>
   plainly_accepted chk_accept ex_factory [2] (\<lparr>global = 2, stack = [0], env = Some 1\<rparr>, ex_heap) \<and>
   map_option (env \<circ> fst)
     (returned (run 0 chk_accept ex_factory [DoPush [Item 2], DoPop]
        (\<lparr>global = 2, stack = [0], env = Some 1\<rparr>, ex_heap))) = Some (Some 0)"
  by (simp add: prepare_Item Pop_def accept_def Let_def Top_def js_index_def returned_def
      chk_accept_def env_inv_def set_item_global_def set_item_env_def ex_heap_def ex_items_def)

subsection \<open>The bound on nested calls\<close>

text \<open>
  The bound only cuts a run off: a call that returns within the bound \<open>n\<close> returns the
  same result within every larger bound.
\<close>

lemma Push_bound_mono:
  "Push n chk fac args sh = Some r \<Longrightarrow> n \<le> m \<Longrightarrow> Push m chk fac args sh = Some r"
proof (induction n chk fac args sh arbitrary: r m rule: Push.induct)
  case (1 n chk fac sh)
  then show ?case by simp
next
  case (2 n chk fac node args sh)
  obtain s h where sh: "sh = (s, h)"
    by (cases sh)
  show ?case
  proof (cases "node = Null")
    case True
    with "2.prems" "2.IH"(1) [of r m] show ?thesis
      by simp
  next
    case False
    show ?thesis
    proof (cases "prepare chk fac node sh")
      case (Inl e)
      with False "2.prems" show ?thesis
        by simp
    next
      case (Inr b)
      obtain i a h1 where b: "b = (i, a, h1)"
        by (cases b)
      note p = Inr [unfolded b]
      have replace: ?thesis
        if run: "\<And>k. Push k chk fac (node # args) sh =
               (case Pop (s, h1) of
                 Inl e \<Rightarrow> Some (Inl e)
               | Inr (popped, sh1) \<Rightarrow>
                   (case k of
                      0 \<Rightarrow> None
                    | Suc j \<Rightarrow>
                        (case Push j chk fac xs sh1 of
                           None \<Rightarrow> None
                         | Some (Inl e) \<Rightarrow> Some (Inl e)
                         | Some (Inr sh2) \<Rightarrow> Push k chk fac args sh2)))"
          and ih1: "\<And>t sh1 j r' j'. Pop (s, h1) = Inr (t, sh1) \<Longrightarrow> n = Suc j \<Longrightarrow>
            Push j chk fac xs sh1 = Some r' \<Longrightarrow> j \<le> j' \<Longrightarrow> Push j' chk fac xs sh1 = Some r'"
          and ih2: "\<And>t sh1 j sh2. Pop (s, h1) = Inr (t, sh1) \<Longrightarrow> n = Suc j \<Longrightarrow>
            Push j chk fac xs sh1 = Some (Inr sh2) \<Longrightarrow>
            Push n chk fac args sh2 = Some r \<Longrightarrow> Push m chk fac args sh2 = Some r"
        for xs
      proof (cases "Pop (s, h1)")
        case (Inl e)
        with run [of n] run [of m] "2.prems" show ?thesis
          by simp
      next
        case pop: (Inr c)
        obtain t sh1 where c: "c = (t, sh1)"
          by (cases c)
        note pop = pop [unfolded c]
        from run [of n] "2.prems"(1) pop obtain j where n: "n = Suc j"
          by (cases n) simp_all
        with "2.prems"(2) obtain j' where m: "m = Suc j'" and jj: "j \<le> j'"
          by (cases m) simp_all
        from run [of n] "2.prems"(1) pop n obtain r' where
          inner: "Push j chk fac xs sh1 = Some r'"
          by (auto split: option.splits)
        from ih1 [OF pop n inner jj] have inner': "Push j' chk fac xs sh1 = Some r'" .
        show ?thesis
        proof (cases r')
          case (Inl e)
          with run [of n] run [of m] "2.prems"(1) pop n m inner inner' show ?thesis
            by simp
        next
          case (Inr sh2)
          with run [of n] "2.prems"(1) pop n inner have "Push n chk fac args sh2 = Some r"
            by simp
          with ih2 [OF pop n] inner Inr have "Push m chk fac args sh2 = Some r"
            by simp
          with run [of m] pop m inner' Inr show ?thesis
            by simp
        qed
      qed
      show ?thesis
      proof (cases a)
        case (Flag f)
        with False p "2.prems" "2.IH"(2) [OF False p refl refl Flag, of r m]
          "2.IH"(3) [OF False p refl refl Flag, of r m]
        show ?thesis
          by (cases f) simp_all
      next
        case (Replace x)
        show ?thesis
        proof (rule replace)
          fix k
          from False p Replace show "Push k chk fac (node # args) sh =
               (case Pop (s, h1) of
                 Inl e \<Rightarrow> Some (Inl e)
               | Inr (popped, sh1) \<Rightarrow>
                   (case k of
                      0 \<Rightarrow> None
                    | Suc j \<Rightarrow>
                        (case Push j chk fac [Item x] sh1 of
                           None \<Rightarrow> None
                         | Some (Inl e) \<Rightarrow> Some (Inl e)
                         | Some (Inr sh2) \<Rightarrow> Push k chk fac args sh2)))"
            by (simp add: sh)
        next
          fix t sh1 j
          assume a: "Pop (s, h1) = Inr (t, sh1)" "n = Suc j"
          from a(1) have a': "Pop (fst sh, h1) = Inr (t, sh1)"
            by (simp add: sh)
          show "Push j' chk fac [Item x] sh1 = Some r'"
            if "Push j chk fac [Item x] sh1 = Some r'" "j \<le> j'" for r' j'
            using that by (rule "2.IH"(4) [OF False p refl refl Replace a' refl a(2)])
          show "Push m chk fac args sh2 = Some r"
            if "Push j chk fac [Item x] sh1 = Some (Inr sh2)" "Push n chk fac args sh2 = Some r"
            for sh2
            using that(2) "2.prems"(2)
            by (rule "2.IH"(5) [OF False p refl refl Replace a' refl a(2) that(1) refl])
        qed
      next
        case (ReplaceList xs)
        show ?thesis
        proof (rule replace)
          fix k
          from False p ReplaceList show "Push k chk fac (node # args) sh =
               (case Pop (s, h1) of
                 Inl e \<Rightarrow> Some (Inl e)
               | Inr (popped, sh1) \<Rightarrow>
                   (case k of
                      0 \<Rightarrow> None
                    | Suc j \<Rightarrow>
                        (case Push j chk fac xs sh1 of
                           None \<Rightarrow> None
                         | Some (Inl e) \<Rightarrow> Some (Inl e)
                         | Some (Inr sh2) \<Rightarrow> Push k chk fac args sh2)))"
            by (simp add: sh)
        next
          fix t sh1 j
          assume a: "Pop (s, h1) = Inr (t, sh1)" "n = Suc j"
          from a(1) have a': "Pop (fst sh, h1) = Inr (t, sh1)"
            by (simp add: sh)
          show "Push j' chk fac xs sh1 = Some r'"
            if "Push j chk fac xs sh1 = Some r'" "j \<le> j'" for r' j'
            using that by (rule "2.IH"(6) [OF False p refl refl ReplaceList a' refl a(2)])
          show "Push m chk fac args sh2 = Some r"
            if "Push j chk fac xs sh1 = Some (Inr sh2)" "Push n chk fac args sh2 = Some r"
            for sh2
            using that(2) "2.prems"(2)
            by (rule "2.IH"(7) [OF False p refl refl ReplaceList a' refl a(2) that(1) refl])
        qed
      qed
    qed
  qed
qed

text \<open>
  And the bound is needed: with a single item on the stack and the check \<open>chk_again\<close>,
  \<open>Push\<close> of any item calls itself without end, so no bound lets it return.
\<close>

lemma Push_Item_on_empty:
  "stack s = [] \<Longrightarrow>
   Push n chk fac (Item i # rest) (s, h) =
     Push n chk fac rest (accept i (s, set_item_global i (global s) h))"
  by (simp add: prepare_Item)

lemma Push_Item_ReplaceList:
  assumes "stack s \<noteq> []"
    and "chk (set_item_global i (global s) h) (last (stack s)) i = Inr (ReplaceList xs, h1)"
    and "Pop (s, h1) = Inr (t, sh1)"
  shows "Push 0 chk fac (Item i # rest) (s, h) = None"
    and "Push (Suc n) chk fac (Item i # rest) (s, h) =
      (case Push n chk fac xs sh1 of
         None \<Rightarrow> None
       | Some (Inl e) \<Rightarrow> Some (Inl e)
       | Some (Inr sh2) \<Rightarrow> Push (Suc n) chk fac rest sh2)"
  using assms by (simp_all add: prepare_Item)

lemma Push_chk_again_never_returns:
  "stack s = [a] \<Longrightarrow> Push n chk_again fac [Item c] (s, h) = None"
proof (induction n arbitrary: s h)
  case 0
  let ?h = "set_item_global c (global s) h"
  from 0 obtain s1 h1 where pop: "Pop (s, ?h) = Inr (a, s1, h1)"
    using Pop_nonempty [of s ?h] by auto
  from 0 have "stack s \<noteq> []" "chk_again ?h (last (stack s)) c = Inr (ReplaceList [Item a, Item c], ?h)"
    by (simp_all add: chk_again_def)
  then show ?case
    using pop by (rule Push_Item_ReplaceList(1))
next
  case (Suc n)
  let ?h = "set_item_global c (global s) h"
  from Suc.prems obtain s1 h1 where pop: "Pop (s, ?h) = Inr (a, s1, h1)"
    using Pop_nonempty [of s ?h] by auto
  from Pop_Inr_stack [OF pop] Suc.prems have e: "stack s1 = []"
    by simp
  obtain s2 h2 where a: "accept a (s1, set_item_global a (global s1) h1) = (s2, h2)"
    by (cases "accept a (s1, set_item_global a (global s1) h1)")
  with e have "stack s2 = [a]"
    using accept_stack [of a s1 "set_item_global a (global s1) h1"] by simp
  then have "Push n chk_again fac [Item c] (s2, h2) = None"
    by (rule Suc.IH)
  with e a have inner: "Push n chk_again fac [Item a, Item c] (s1, h1) = None"
    by (simp only: Push_Item_on_empty)
  from Suc.prems have "stack s \<noteq> []"
    "chk_again ?h (last (stack s)) c = Inr (ReplaceList [Item a, Item c], ?h)"
    by (simp_all add: chk_again_def)
  from Push_Item_ReplaceList(2)
    [where chk = chk_again and s = s and i = c and h = h and n = n and fac = fac and rest = "[]",
      OF this pop]
    inner
  show ?case
    by (simp only: option.case)
qed

end
